theory Spec2Isabelle
  imports Main
begin

section \<open>FileBatcher: configuration\<close>

text \<open>
  The object built by \<^verbatim>\<open>new FileBatcher(options)\<close> (file-batch-utils.js, lines 14-20).
  An option that is absent is \<open>None\<close>; numbers are JavaScript integers, modelled as
  \<open>int\<close> (array lengths stay far below the range where doubles stop being exact).
\<close>

record options =
  opt_batchSize :: "int option"
  opt_verbose :: "bool option"
  opt_dryRun :: "bool option"
  opt_delay :: "int option"

record config =
  batchSize :: int
  verbose :: bool
  dryRun :: bool
  delay :: int

text \<open>\<^verbatim>\<open>x || d\<close> on a number: \<open>undefined\<close> and \<open>0\<close> are falsy.\<close>

definition or_num :: "int option \<Rightarrow> int \<Rightarrow> int" where
  "or_num x d = (case x of None \<Rightarrow> d | Some v \<Rightarrow> if v = 0 then d else v)"

text \<open>\<^verbatim>\<open>x || false\<close> on a boolean.\<close>

definition or_false :: "bool option \<Rightarrow> bool" where
  "or_false x = (case x of None \<Rightarrow> False | Some b \<Rightarrow> if b then b else False)"

definition FileBatcher :: "options \<Rightarrow> config" where
  "FileBatcher opts =
     \<lparr> batchSize = or_num (opt_batchSize opts) 50,
       verbose = or_false (opt_verbose opts),
       dryRun = or_false (opt_dryRun opts),
       delay = or_num (opt_delay opts) 100 \<rparr>"

section \<open>createBatches\<close>

text \<open>
  \<^verbatim>\<open>Array.prototype.slice(start, end)\<close>: a negative index counts from the end of the
  array, both indices are clamped to the array, and an empty range gives the empty array.
\<close>

definition js_slice :: "'a list \<Rightarrow> int \<Rightarrow> int \<Rightarrow> 'a list" where
  "js_slice xs start fin =
     (let n = int (length xs);
          k = (if start < 0 then max (n + start) 0 else min start n);
          final = (if fin < 0 then max (n + fin) 0 else min fin n)
      in take (nat (final - k)) (drop (nat k) xs))"

text \<open>
  The loop of \<^verbatim>\<open>createBatches\<close> (lines 77-83):
  \<^verbatim>\<open>for (let i = 0; i < files.length; i += this.batchSize)
      batches.push(files.slice(i, i + this.batchSize));\<close>
  Nothing in the source bounds the number of iterations, so the loop is a partial
  function: \<open>None\<close> is the run that never leaves the loop.
\<close>

partial_function (option) createBatches_loop ::
  "int \<Rightarrow> 'a list \<Rightarrow> int \<Rightarrow> 'a list list \<Rightarrow> 'a list list option" where
  "createBatches_loop sz fs i batches =
     (if i < int (length fs)
      then createBatches_loop sz fs (i + sz) (batches @ [js_slice fs i (i + sz)])
      else Some batches)"

declare createBatches_loop.simps [code]

definition createBatches :: "config \<Rightarrow> 'a list \<Rightarrow> 'a list list option" where
  "createBatches cfg fs = createBatches_loop (batchSize cfg) fs 0 []"

section \<open>Strings\<close>

text \<open>
  Template literals turn numbers into decimal text; \<^verbatim>\<open>Array.prototype.join\<close> puts the
  separator between the items.
\<close>

function string_of_nat :: "nat \<Rightarrow> string" where
  "string_of_nat n =
     (if n < 10 then [''0123456789'' ! n]
      else string_of_nat (n div 10) @ [''0123456789'' ! (n mod 10)])"
  by pat_completeness auto
termination
  by (relation "measure id") auto

declare string_of_nat.simps [simp del]

definition string_of_int :: "int \<Rightarrow> string" where
  "string_of_int i = (if i < 0 then CHR ''-'' # string_of_nat (nat (- i)) else string_of_nat (nat i))"

fun js_join :: "string \<Rightarrow> string list \<Rightarrow> string" where
  "js_join sep [] = []"
| "js_join sep [x] = x"
| "js_join sep (x # y # ys) = x @ sep @ js_join sep (y # ys)"

definition dquote :: char where
  "dquote = CHR 0x22"

definition newline :: char where
  "newline = CHR 0x0A"

section \<open>The outside world\<close>

text \<open>
  What a run does to the outside is the list of its events, oldest first: lines written
  with \<^verbatim>\<open>console.log\<close> and \<^verbatim>\<open>console.error\<close>, command lines handed to
  \<^verbatim>\<open>execSync\<close> and calls of \<^verbatim>\<open>sleep\<close>. Whether \<^verbatim>\<open>execSync\<close> throws is up to
  the outside: a \<open>world\<close> answers, from everything that happened so far and the command
  line, \<open>None\<close> when the command succeeds and \<open>Some message\<close> when it throws an error
  with that message. The options of \<^verbatim>\<open>execSync\<close> (stdio, maxBuffer) are not modelled.
\<close>

datatype event =
    ConsoleLog string
  | ConsoleError string
  | ExecSync string
  | Sleep int

datatype js_error =
    Error string
  | ExecError string string

type_synonym world = "event list \<Rightarrow> string \<Rightarrow> string option"

type_synonym outcome = "(js_error + unit) \<times> event list"

section \<open>addFilesBatched\<close>

definition gitAddCommand :: "string list \<Rightarrow> string" where
  "gitAddCommand batch = ''git add '' @ js_join '' '' (map (\<lambda>f. [dquote] @ f @ [dquote]) batch)"

text \<open>The lines the methods print (lines 34, 42, 54, 62, 68, 111 and 115).\<close>

definition adding_line :: "nat \<Rightarrow> nat \<Rightarrow> int \<Rightarrow> string" where
  "adding_line count batchCount sz =
     ''Adding '' @ string_of_nat count @ '' files in '' @ string_of_nat batchCount @
     '' batches of max '' @ string_of_int sz @ '' files each''"

definition processing_line :: "nat \<Rightarrow> nat \<Rightarrow> nat \<Rightarrow> string" where
  "processing_line batchNum batchCount count =
     ''Processing batch '' @ string_of_nat batchNum @ ''/'' @ string_of_nat batchCount @
     '' ('' @ string_of_nat count @ '' files)''"

definition dry_add_line :: "string list \<Rightarrow> string" where
  "dry_add_line batch = ''[DRY RUN] Would add: '' @ js_join '', '' batch"

definition error_line :: "nat \<Rightarrow> string \<Rightarrow> string" where
  "error_line batchNum message =
     ''Error processing batch '' @ string_of_nat batchNum @ '':'' @ '' '' @ message"

definition added_line :: "nat \<Rightarrow> string" where
  "added_line count =
     ''Successfully added '' @ string_of_nat count @ '' files to git staging area''"

definition dry_commit_line :: "string \<Rightarrow> string" where
  "dry_commit_line message =
     ''[DRY RUN] Would commit with message: '' @ [dquote] @ message @ [dquote]"

definition committed_line :: "nat \<Rightarrow> nat \<Rightarrow> string" where
  "committed_line batchNum batchCount =
     ''Committed batch '' @ string_of_nat batchNum @ ''/'' @ string_of_nat batchCount"

text \<open>
  Lines 58-60 and 119-121:
  \<^verbatim>\<open>if (i < batches.length - 1 && this.delay > 0) await this.sleep(this.delay);\<close>
\<close>

definition delay_between :: "config \<Rightarrow> nat \<Rightarrow> nat \<Rightarrow> event list \<Rightarrow> event list" where
  "delay_between cfg i n tr =
     (if int i < int n - 1 \<and> delay cfg > 0 then tr @ [Sleep (delay cfg)] else tr)"

text \<open>
  The loop of lines 37-65. An error thrown by \<^verbatim>\<open>execSync\<close> is caught, reported with
  \<^verbatim>\<open>console.error\<close> and thrown again.
\<close>

function addFilesBatched_loop ::
  "config \<Rightarrow> world \<Rightarrow> string list list \<Rightarrow> nat \<Rightarrow> event list \<Rightarrow> outcome" where
  "addFilesBatched_loop cfg w batches i tr =
     (if i < length batches then
        (let batch = batches ! i;
             batchNum = i + 1;
             tr1 = (if verbose cfg
                    then tr @ [ConsoleLog (processing_line batchNum (length batches) (length batch))]
                    else tr)
         in if \<not> dryRun cfg then
              (case w tr1 (gitAddCommand batch) of
                 Some message \<Rightarrow>
                   (Inl (ExecError (gitAddCommand batch) message),
                    tr1 @ [ExecSync (gitAddCommand batch),
                           ConsoleError (error_line batchNum message)])
               | None \<Rightarrow>
                   addFilesBatched_loop cfg w batches (i + 1)
                     (delay_between cfg i (length batches) (tr1 @ [ExecSync (gitAddCommand batch)])))
            else
              addFilesBatched_loop cfg w batches (i + 1)
                (delay_between cfg i (length batches)
                   (tr1 @ [ConsoleLog (dry_add_line batch)])))
      else (Inr (), tr))"
  by pat_completeness auto
termination
  by (relation "measure (\<lambda>(cfg, w, batches, i, tr). length batches - i)") auto

declare addFilesBatched_loop.simps [simp del]

text \<open>
  Lines 26-70. The argument is a list, so \<^verbatim>\<open>Array.isArray(files)\<close> holds;
  the result is \<open>None\<close> when \<^verbatim>\<open>createBatches\<close> never returns.
\<close>

definition addFilesBatched ::
  "config \<Rightarrow> world \<Rightarrow> event list \<Rightarrow> string list \<Rightarrow> outcome option" where
  "addFilesBatched cfg w tr fs =
     (if length fs = 0 then Some (Inl (Error ''Files must be a non-empty array''), tr)
      else
        (case createBatches cfg fs of
           None \<Rightarrow> None
         | Some batches \<Rightarrow>
             (let tr1 = (if verbose cfg
                         then tr @ [ConsoleLog (adding_line (length fs) (length batches)
                                                  (batchSize cfg))]
                         else tr)
              in (case addFilesBatched_loop cfg w batches 0 tr1 of
                    (Inl e, tr2) \<Rightarrow> Some (Inl e, tr2)
                  | (Inr u, tr2) \<Rightarrow>
                      Some (Inr (),
                            if verbose cfg \<and> \<not> dryRun cfg
                            then tr2 @ [ConsoleLog (added_line (length fs))]
                            else tr2)))))"

section \<open>commitFilesBatched\<close>

definition gitCommitCommand :: "string \<Rightarrow> string" where
  "gitCommitCommand commitMessage = ''git commit -m '' @ [dquote] @ commitMessage @ [dquote]"

text \<open>Lines 102-104.\<close>

definition commitMessage :: "string \<Rightarrow> nat \<Rightarrow> nat \<Rightarrow> string" where
  "commitMessage baseMessage batchNum totalBatches =
     (if totalBatches > 1
      then baseMessage @ '' (batch '' @ string_of_nat batchNum @ ''/'' @
           string_of_nat totalBatches @ '')''
      else baseMessage)"

text \<open>Lines 114-116.\<close>

definition committed_log :: "config \<Rightarrow> nat \<Rightarrow> nat \<Rightarrow> event list \<Rightarrow> event list" where
  "committed_log cfg batchNum totalBatches tr =
     (if verbose cfg
      then tr @ [ConsoleLog (committed_line batchNum totalBatches)]
      else tr)"

text \<open>
  The loop of lines 93-122. The call of \<^verbatim>\<open>execSync\<close> for the commit stands outside any
  \<^verbatim>\<open>try\<close>: its error leaves the method as it is.
\<close>

function commitFilesBatched_loop ::
  "config \<Rightarrow> world \<Rightarrow> string list list \<Rightarrow> string \<Rightarrow> nat \<Rightarrow> event list \<Rightarrow> outcome option" where
  "commitFilesBatched_loop cfg w batches baseMessage i tr =
     (if i < length batches then
        (let batch = batches ! i;
             batchNum = i + 1;
             totalBatches = length batches
         in (case addFilesBatched cfg w tr batch of
               None \<Rightarrow> None
             | Some (Inl e, tr1) \<Rightarrow> Some (Inl e, tr1)
             | Some (Inr u, tr1) \<Rightarrow>
                 (let message = commitMessage baseMessage batchNum totalBatches
                  in if \<not> dryRun cfg then
                       (case w tr1 (gitCommitCommand message) of
                          Some cause \<Rightarrow>
                            Some (Inl (ExecError (gitCommitCommand message) cause),
                                  tr1 @ [ExecSync (gitCommitCommand message)])
                        | None \<Rightarrow>
                            commitFilesBatched_loop cfg w batches baseMessage (i + 1)
                              (delay_between cfg i (length batches)
                                 (committed_log cfg batchNum totalBatches
                                    (tr1 @ [ExecSync (gitCommitCommand message)]))))
                     else
                       commitFilesBatched_loop cfg w batches baseMessage (i + 1)
                         (delay_between cfg i (length batches)
                            (committed_log cfg batchNum totalBatches
                               (tr1 @ [ConsoleLog (dry_commit_line message)]))))))
      else Some (Inr (), tr))"
  by pat_completeness auto
termination
  by (relation "measure (\<lambda>(cfg, w, batches, baseMessage, i, tr). length batches - i)") auto

declare commitFilesBatched_loop.simps [simp del]

text \<open>
  Lines 90-123; \<open>None\<close> for the message is the call that leaves it out
  (\<^verbatim>\<open>baseMessage = 'Add files'\<close>).
\<close>

definition commitFilesBatched ::
  "config \<Rightarrow> world \<Rightarrow> event list \<Rightarrow> string list \<Rightarrow> string option \<Rightarrow> outcome option" where
  "commitFilesBatched cfg w tr fs baseMessage =
     (case createBatches cfg fs of
        None \<Rightarrow> None
      | Some batches \<Rightarrow>
          commitFilesBatched_loop cfg w batches
            (case baseMessage of None \<Rightarrow> ''Add files'' | Some m \<Rightarrow> m) 0 tr)"

section \<open>analyzeGitStatus\<close>

record analysis =
  needsBatching :: bool
  fileCount :: nat
  files :: "string list"

text \<open>\<^verbatim>\<open>String.prototype.split\<close> on a one-character separator.\<close>

fun js_split :: "char \<Rightarrow> string \<Rightarrow> string list" where
  "js_split sep [] = [[]]"
| "js_split sep (c # cs) =
     (if c = sep then [] # js_split sep cs
      else (case js_split sep cs of
              [] \<Rightarrow> [[c]]
            | l # ls \<Rightarrow> (c # l) # ls))"

text \<open>
  \<^verbatim>\<open>String.prototype.trim\<close> on the white space of ASCII: tab, line feed, vertical tab,
  form feed, carriage return and space.
\<close>

definition js_whitespace :: "char \<Rightarrow> bool" where
  "js_whitespace c = (c \<in> set [CHR 0x09, CHR 0x0A, CHR 0x0B, CHR 0x0C, CHR 0x0D, CHR 0x20])"

definition js_trim :: "string \<Rightarrow> string" where
  "js_trim s = rev (dropWhile js_whitespace (rev (dropWhile js_whitespace s)))"

definition startsWith :: "string \<Rightarrow> string \<Rightarrow> bool" where
  "startsWith s p = (take (length p) s = p)"

text \<open>
  Lines 173-200. The argument is what \<^verbatim>\<open>execSync('git status --porcelain')\<close> did:
  \<open>Inr\<close> its output, or \<open>Inl\<close> the message of the error it threw. The three lines the
  method prints when it recommends batching do not reach the result and are left out.
\<close>

definition analyzeGitStatus :: "config \<Rightarrow> string + string \<Rightarrow> js_error + analysis" where
  "analyzeGitStatus cfg query =
     (case query of
        Inl message \<Rightarrow> Inl (Error (''Failed to analyze git status: '' @ message))
      | Inr status \<Rightarrow>
          (let unstagedFiles =
                 map (drop 3)
                   (filter (\<lambda>line. js_trim line \<noteq> [] \<and>
                                   (startsWith line ''??'' \<or> startsWith line '' M'' \<or>
                                    startsWith line '' A''))
                      (js_split newline status))
           in if int (length unstagedFiles) > batchSize cfg
              then Inr \<lparr> needsBatching = True,
                         fileCount = length unstagedFiles,
                         files = unstagedFiles \<rparr>
              else Inr \<lparr> needsBatching = False,
                         fileCount = length unstagedFiles,
                         files = unstagedFiles \<rparr>))"

section \<open>Reading a run\<close>

text \<open>The command lines a trace handed to \<^verbatim>\<open>execSync\<close>, and its sleeps, in order.\<close>

fun execs :: "event list \<Rightarrow> string list" where
  "execs [] = []"
| "execs (ExecSync c # es) = c # execs es"
| "execs (e # es) = execs es"

fun sleeps :: "event list \<Rightarrow> int list" where
  "sleeps [] = []"
| "sleeps (Sleep d # es) = d # sleeps es"
| "sleeps (e # es) = sleeps es"

text \<open>
  Both loops do the same kind of thing: they walk through a fixed sequence of steps
  (print a line, run a command, sleep) and leave at the first command that throws.
  \<open>run_steps\<close> is that walk, for any sequence; a command run inside the
  \<^verbatim>\<open>try\<close> of \<^verbatim>\<open>addFilesBatched\<close> carries the line that \<^verbatim>\<open>catch\<close> prints. The
  sequences of the two methods follow; the lemmas \<open>addFilesBatched_steps\<close> and
  \<open>commitFilesBatched_steps\<close> show that the loops of the source are these walks.
\<close>

datatype step =
    SLog string
  | SExec string "(string \<Rightarrow> string) option"
  | SSleep int

fun run_steps :: "world \<Rightarrow> step list \<Rightarrow> event list \<Rightarrow> outcome" where
  "run_steps w [] tr = (Inr (), tr)"
| "run_steps w (SLog s # ss) tr = run_steps w ss (tr @ [ConsoleLog s])"
| "run_steps w (SSleep d # ss) tr = run_steps w ss (tr @ [Sleep d])"
| "run_steps w (SExec c h # ss) tr =
     (case w tr c of
        None \<Rightarrow> run_steps w ss (tr @ [ExecSync c])
      | Some m \<Rightarrow>
          (Inl (ExecError c m),
           tr @ ExecSync c # (case h of None \<Rightarrow> [] | Some line \<Rightarrow> [ConsoleError (line m)])))"

definition delay_step :: "config \<Rightarrow> nat \<Rightarrow> nat \<Rightarrow> step list" where
  "delay_step cfg i n = (if int i < int n - 1 \<and> delay cfg > 0 then [SSleep (delay cfg)] else [])"

definition add_steps :: "config \<Rightarrow> string list list \<Rightarrow> nat \<Rightarrow> step list" where
  "add_steps cfg batches i =
     (if verbose cfg
      then [SLog (processing_line (i + 1) (length batches) (length (batches ! i)))]
      else []) @
     [if \<not> dryRun cfg
      then SExec (gitAddCommand (batches ! i)) (Some (error_line (i + 1)))
      else SLog (dry_add_line (batches ! i))] @
     delay_step cfg i (length batches)"

definition add_script :: "config \<Rightarrow> string list \<Rightarrow> string list list \<Rightarrow> step list" where
  "add_script cfg fs batches =
     (if verbose cfg
      then [SLog (adding_line (length fs) (length batches) (batchSize cfg))]
      else []) @
     concat (map (add_steps cfg batches) [0..<length batches]) @
     (if verbose cfg \<and> \<not> dryRun cfg then [SLog (added_line (length fs))] else [])"

definition commit_steps :: "config \<Rightarrow> string list list \<Rightarrow> string \<Rightarrow> nat \<Rightarrow> step list" where
  "commit_steps cfg batches baseMessage i =
     add_script cfg (batches ! i) [batches ! i] @
     [if \<not> dryRun cfg
      then SExec (gitCommitCommand (commitMessage baseMessage (i + 1) (length batches))) None
      else SLog (dry_commit_line (commitMessage baseMessage (i + 1) (length batches)))] @
     (if verbose cfg then [SLog (committed_line (i + 1) (length batches))] else []) @
     delay_step cfg i (length batches)"

definition commit_script :: "config \<Rightarrow> string list list \<Rightarrow> string \<Rightarrow> step list" where
  "commit_script cfg batches baseMessage =
     concat (map (commit_steps cfg batches baseMessage) [0..<length batches])"

text \<open>
  The commands of a sequence of steps, and the events of a walk through all of it.
\<close>

fun step_cmds :: "step list \<Rightarrow> string list" where
  "step_cmds [] = []"
| "step_cmds (SExec c h # ss) = c # step_cmds ss"
| "step_cmds (s # ss) = step_cmds ss"

fun step_events :: "step list \<Rightarrow> event list" where
  "step_events [] = []"
| "step_events (SLog s # ss) = ConsoleLog s # step_events ss"
| "step_events (SSleep d # ss) = Sleep d # step_events ss"
| "step_events (SExec c h # ss) = ExecSync c # step_events ss"

text \<open>Concrete inputs for the examples: a batcher with batches of two, and two worlds.\<close>

definition pairs_options :: options where
  "pairs_options = \<lparr> opt_batchSize = Some 2, opt_verbose = None, opt_dryRun = None,
                      opt_delay = Some 5 \<rparr>"

definition always_ok :: world where
  "always_ok tr c = None"

definition fails_on :: "string \<Rightarrow> world" where
  "fails_on bad tr c = (if c = bad then Some ''fatal'' else None)"

definition zero_options :: options where
  "zero_options = \<lparr> opt_batchSize = Some 0, opt_verbose = None, opt_dryRun = None,
                     opt_delay = Some 0 \<rparr>"

definition sixty_untracked :: string where
  "sixty_untracked = concat (replicate 60 (''?? f'' @ [newline]))"

text \<open>
  The entries of a status report as the specification words them: a line counts when its
  two-character status prefix is that of an untracked, a modified or an added path.
\<close>

definition spec_recognized :: "string \<Rightarrow> bool" where
  "spec_recognized line = (take 2 line = ''??'' \<or> take 2 line = '' M'' \<or> take 2 line = '' A'')"

text \<open>A trace without its console lines: the commands and the sleeps, in order.\<close>

fun work :: "event list \<Rightarrow> event list" where
  "work [] = []"
| "work (ConsoleLog s # es) = work es"
| "work (ConsoleError s # es) = work es"
| "work (e # es) = e # work es"

definition dry_options :: options where
  "dry_options = \<lparr> opt_batchSize = Some 2, opt_verbose = None, opt_dryRun = Some True,
                    opt_delay = Some 5 \<rparr>"






text \<open>
  The partition the loop is meant to compute, written by recursion on the list: cut
  \<open>n\<close> items off the front until nothing is left.
\<close>

function chunks :: "nat \<Rightarrow> 'a list \<Rightarrow> 'a list list" where
  "chunks n xs = (if n = 0 \<or> xs = [] then [] else take n xs # chunks n (drop n xs))"
  by pat_completeness auto
termination
  by (relation "measure (\<lambda>(n, xs). length xs)") auto

declare chunks.simps [simp del]

section \<open>Properties of the partition\<close>

lemma chunks_Nil [simp]: "chunks n [] = []"
  by (simp add: chunks.simps)

lemma chunks_step: "0 < n \<Longrightarrow> xs \<noteq> [] \<Longrightarrow> chunks n xs = take n xs # chunks n (drop n xs)"
  by (subst chunks.simps) simp

lemma concat_chunks: "0 < n \<Longrightarrow> concat (chunks n xs) = xs"
proof (induction n xs rule: chunks.induct)
  case (1 n xs)
  show ?case
  proof (cases "xs = []")
    case True
    then show ?thesis by simp
  next
    case False
    with 1 show ?thesis by (simp add: chunks_step)
  qed
qed

lemma div_add_self_Suc:
  fixes k n :: nat
  shows "0 < n \<Longrightarrow> (k + n) div n = Suc (k div n)"
  by (metis Suc_eq_plus1 div_add_self2 less_numeral_extra(3))

lemma ceil_div_step:
  fixes m n :: nat
  assumes "0 < n" "n \<le> m"
  shows "(m + n - 1) div n = Suc ((m - n + n - 1) div n)"
proof -
  have a: "m + n - 1 = (m - 1) + n" using assms by arith
  have b: "m - n + n - 1 = m - 1" using assms by arith
  show ?thesis unfolding a b using assms(1) by (rule div_add_self_Suc)
qed

lemma ceil_div_small:
  fixes m n :: nat
  assumes "0 < m" "m \<le> n"
  shows "(m + n - 1) div n = 1"
proof -
  have a: "m + n - 1 = (m - 1) + n" using assms by arith
  have b: "(m - 1) div n = 0" using assms by simp
  have "((m - 1) + n) div n = Suc ((m - 1) div n)" using assms by (intro div_add_self_Suc) simp
  then show ?thesis unfolding a b by simp
qed

lemma div_shift:
  fixes q n k :: nat
  shows "k < n \<Longrightarrow> (q * n + k) div n = q"
  by simp

lemma ceil_div_alt:
  fixes m n :: nat
  assumes "0 < n"
  shows "(m + n - 1) div n = m div n + (if m mod n = 0 then 0 else 1)"
proof -
  define q r where "q = m div n" and "r = m mod n"
  have m: "m = q * n + r" and r: "r < n"
    using assms by (simp_all add: q_def r_def)
  show ?thesis
  proof (cases "r = 0")
    case True
    define k where "k = n - 1"
    have "k < n" using assms by (simp add: k_def)
    then have "(q * n + k) div n = q" by (rule div_shift)
    moreover have "m + n - 1 = q * n + k" using True m assms by (simp add: k_def)
    ultimately show ?thesis using True by (simp add: q_def [symmetric] r_def [symmetric])
  next
    case False
    define k where "k = r - 1"
    have "k < n" using r by (simp add: k_def)
    then have "((q + 1) * n + k) div n = q + 1" by (rule div_shift)
    moreover have "m + n - 1 = (q + 1) * n + k" using False m by (simp add: k_def)
    ultimately show ?thesis using False by (simp add: q_def [symmetric] r_def [symmetric])
  qed
qed

lemma length_chunks: "0 < n \<Longrightarrow> length (chunks n xs) = (length xs + n - 1) div n"
proof (induction n xs rule: chunks.induct)
  case (1 n xs)
  show ?case
  proof (cases "xs = []")
    case True
    with 1(2) show ?thesis by simp
  next
    case False
    have ih: "length (chunks n (drop n xs)) = (length xs - n + n - 1) div n"
      using 1 False by simp
    have unfold: "length (chunks n xs) = Suc (length (chunks n (drop n xs)))"
      using False 1(2) by (simp add: chunks_step)
    show ?thesis
    proof (cases "n \<le> length xs")
      case True
      show ?thesis
        unfolding unfold ih using ceil_div_step [OF 1(2) True] by simp
    next
      case False
      then have "drop n xs = []" by simp
      moreover have "(length xs + n - 1) div n = 1"
        using False \<open>xs \<noteq> []\<close> by (intro ceil_div_small) simp_all
      ultimately show ?thesis
        unfolding unfold by simp
    qed
  qed
qed

lemma nth_chunks:
  "0 < n \<Longrightarrow> k < length (chunks n xs) \<Longrightarrow> chunks n xs ! k = take n (drop (k * n) xs)"
proof (induction n xs arbitrary: k rule: chunks.induct)
  case (1 n xs)
  from 1(3) have ne: "xs \<noteq> []" by auto
  have unfold: "chunks n xs = take n xs # chunks n (drop n xs)"
    using ne 1(2) by (rule chunks_step [rotated])
  show ?case
  proof (cases k)
    case 0
    then show ?thesis by (simp add: unfold)
  next
    case (Suc j)
    with 1(3) have "j < length (chunks n (drop n xs))"
      by (simp add: unfold)
    with 1(1) [of j] 1(2) ne have "chunks n (drop n xs) ! j = take n (drop (j * n) (drop n xs))"
      by simp
    then show ?thesis
      by (simp add: unfold Suc add.commute)
  qed
qed

lemma chunk_bounds:
  "0 < n \<Longrightarrow> b \<in> set (chunks n xs) \<Longrightarrow> b \<noteq> [] \<and> length b \<le> n"
proof (induction n xs rule: chunks.induct)
  case (1 n xs)
  from 1(3) have ne: "xs \<noteq> []" by auto
  have unfold: "chunks n xs = take n xs # chunks n (drop n xs)"
    using ne 1(2) by (rule chunks_step [rotated])
  from 1(3) have "b = take n xs \<or> b \<in> set (chunks n (drop n xs))"
    by (simp add: unfold)
  then show ?case
  proof
    assume "b = take n xs"
    with ne 1(2) show ?thesis by simp
  next
    assume "b \<in> set (chunks n (drop n xs))"
    with 1(1) 1(2) ne show ?thesis by simp
  qed
qed

lemma butlast_chunks_full:
  "0 < n \<Longrightarrow> b \<in> set (butlast (chunks n xs)) \<Longrightarrow> length b = n"
proof (induction n xs rule: chunks.induct)
  case (1 n xs)
  from 1(3) have ne: "xs \<noteq> []" by auto
  have unfold: "chunks n xs = take n xs # chunks n (drop n xs)"
    using ne 1(2) by (rule chunks_step [rotated])
  show ?case
  proof (cases "chunks n (drop n xs) = []")
    case True
    with 1(3) show ?thesis by (simp add: unfold)
  next
    case False
    then have more: "drop n xs \<noteq> []" by auto
    from 1(3) False have "b = take n xs \<or> b \<in> set (butlast (chunks n (drop n xs)))"
      by (simp add: unfold)
    then show ?thesis
    proof
      assume "b = take n xs"
      with more show ?thesis by simp
    next
      assume "b \<in> set (butlast (chunks n (drop n xs)))"
      with 1(1) 1(2) ne show ?thesis by simp
    qed
  qed
qed

lemma last_chunk_length:
  "0 < n \<Longrightarrow> xs \<noteq> [] \<Longrightarrow>
   length (last (chunks n xs)) = (if length xs mod n = 0 then n else length xs mod n)"
proof (induction n xs rule: chunks.induct)
  case (1 n xs)
  have unfold: "chunks n xs = take n xs # chunks n (drop n xs)"
    using 1(3) 1(2) by (rule chunks_step [rotated])
  show ?case
  proof (cases "drop n xs = []")
    case True
    then have le: "length xs \<le> n" by simp
    have pos: "0 < length xs" using 1(3) by simp
    show ?thesis
    proof (cases "length xs = n")
      case True
      with \<open>drop n xs = []\<close> show ?thesis by (simp add: unfold)
    next
      case False
      with le have "length xs < n" by simp
      with \<open>drop n xs = []\<close> pos show ?thesis by (simp add: unfold)
    qed
  next
    case False
    then have lt: "n < length xs" by simp
    have step: "chunks n (drop n xs) \<noteq> []"
      using False 1(2) by (simp add: chunks_step)
    have "length (last (chunks n (drop n xs))) =
          (if length (drop n xs) mod n = 0 then n else length (drop n xs) mod n)"
      using 1(1) 1(2) 1(3) False by simp
    moreover have "length (drop n xs) mod n = length xs mod n"
      using lt by (simp add: le_mod_geq)
    ultimately show ?thesis
      using step by (simp add: unfold)
  qed
qed

subsection \<open>The loop computes the partition when the size is positive\<close>

lemma js_slice_window:
  "i < length fs \<Longrightarrow> js_slice fs (int i) (int i + int n) = take n (drop i fs)"
proof -
  assume lt: "i < length fs"
  have "min (int i + int n) (int (length fs)) - int i = int (min n (length fs - i))"
    using lt by (auto simp: min_def)
  then have "js_slice fs (int i) (int i + int n) = take (min n (length fs - i)) (drop i fs)"
    using lt by (simp add: js_slice_def Let_def min_def)
  also have "\<dots> = take n (drop i fs)"
    by (simp add: min_def)
  finally show ?thesis .
qed

lemma createBatches_loop_chunks:
  "0 < n \<Longrightarrow>
   createBatches_loop (int n) fs (int i) acc = Some (acc @ chunks n (drop i fs))"
proof (induction "length fs - i" arbitrary: i acc rule: less_induct)
  case less
  show ?case
  proof (cases "i < length fs")
    case False
    then show ?thesis
      by (subst createBatches_loop.simps) simp
  next
    case True
    then have ne: "drop i fs \<noteq> []" by simp
    have smaller: "length fs - (i + n) < length fs - i"
      using True less.prems by arith
    have "createBatches_loop (int n) fs (int i) acc =
          createBatches_loop (int n) fs (int (i + n)) (acc @ [js_slice fs (int i) (int i + int n)])"
      using True by (subst createBatches_loop.simps) simp
    also have "\<dots> = Some ((acc @ [js_slice fs (int i) (int i + int n)]) @ chunks n (drop (i + n) fs))"
      using less.hyps [OF smaller less.prems] .
    also have "\<dots> = Some (acc @ chunks n (drop i fs))"
      using True less.prems ne
      by (simp add: js_slice_window chunks_step [of n "drop i fs"] add.commute)
    finally show ?thesis .
  qed
qed

lemma createBatches_chunks:
  assumes "1 \<le> batchSize cfg"
  shows "createBatches cfg fs = Some (chunks (nat (batchSize cfg)) fs)"
proof -
  have "createBatches_loop (int (nat (batchSize cfg))) fs (int 0) [] =
        Some ([] @ chunks (nat (batchSize cfg)) (drop 0 fs))"
    using assms by (intro createBatches_loop_chunks) simp
  then show ?thesis
    using assms by (simp add: createBatches_def)
qed

subsection \<open>The loop never ends on a size that is not positive\<close>

lemma createBatches_loop_returns:
  assumes "createBatches_loop sz fs i acc = Some y"
  shows "\<not> (sz \<le> 0 \<and> i < int (length fs))"
proof (rule createBatches_loop.raw_induct
         [where P = "\<lambda>sz fs i acc y. \<not> (sz \<le> 0 \<and> i < int (length fs))", OF _ assms])
  fix loop :: "int \<Rightarrow> 'a list \<Rightarrow> int \<Rightarrow> 'a list list \<Rightarrow> 'a list list option"
  fix sz fs i acc y
  assume ih: "\<And>sz fs i acc y. loop sz fs i acc = Some y \<Longrightarrow> \<not> (sz \<le> 0 \<and> i < int (length fs))"
    and eq: "(if i < int (length fs)
              then loop sz fs (i + sz) (acc @ [js_slice fs i (i + sz)])
              else Some acc) = Some y"
  show "\<not> (sz \<le> 0 \<and> i < int (length fs))"
  proof
    assume bad: "sz \<le> 0 \<and> i < int (length fs)"
    with eq have "loop sz fs (i + sz) (acc @ [js_slice fs i (i + sz)]) = Some y"
      by simp
    from ih [OF this] bad show False by simp
  qed
qed

lemma createBatches_diverges:
  "batchSize cfg \<le> 0 \<Longrightarrow> fs \<noteq> [] \<Longrightarrow> createBatches cfg fs = None"
proof (rule ccontr)
  assume a: "batchSize cfg \<le> 0" "fs \<noteq> []" and "createBatches cfg fs \<noteq> None"
  then obtain y where "createBatches_loop (batchSize cfg) fs 0 [] = Some y"
    by (auto simp: createBatches_def)
  from createBatches_loop_returns [OF this] a show False by simp
qed

lemma createBatches_Nil: "createBatches cfg [] = Some []"
  by (simp add: createBatches_def createBatches_loop.simps)

section \<open>The loops of the runner are walks through their steps\<close>

lemma run_steps_append:
  "run_steps w (a @ b) tr =
     (case run_steps w a tr of (Inl e, t) \<Rightarrow> (Inl e, t) | (Inr u, t) \<Rightarrow> run_steps w b t)"
proof (induction a arbitrary: tr)
  case Nil
  show ?case by simp
next
  case (Cons s a)
  show ?case
  proof (cases s)
    case (SLog x)
    with Cons show ?thesis by simp
  next
    case (SExec c h)
    with Cons show ?thesis by (simp split: option.splits)
  next
    case (SSleep d)
    with Cons show ?thesis by simp
  qed
qed

lemma run_delay_step:
  "run_steps w (delay_step cfg i n @ ss) tr = run_steps w ss (delay_between cfg i n tr)"
  by (simp add: delay_step_def delay_between_def)

lemma run_add_steps:
  "run_steps w (add_steps cfg batches i @ ss) tr =
     (let batch = batches ! i;
          tr1 = (if verbose cfg
                 then tr @ [ConsoleLog (processing_line (i + 1) (length batches) (length batch))]
                 else tr)
      in if \<not> dryRun cfg then
           (case w tr1 (gitAddCommand batch) of
              Some message \<Rightarrow>
                (Inl (ExecError (gitAddCommand batch) message),
                 tr1 @ [ExecSync (gitAddCommand batch), ConsoleError (error_line (i + 1) message)])
            | None \<Rightarrow>
                run_steps w ss (delay_between cfg i (length batches)
                                  (tr1 @ [ExecSync (gitAddCommand batch)])))
         else run_steps w ss (delay_between cfg i (length batches)
                                (tr1 @ [ConsoleLog (dry_add_line batch)])))"
  by (simp add: add_steps_def run_delay_step Let_def split: option.splits)

lemma addFilesBatched_loop_steps:
  "addFilesBatched_loop cfg w batches i tr =
   run_steps w (concat (map (add_steps cfg batches) [i..<length batches])) tr"
proof (induction "length batches - i" arbitrary: i tr)
  case 0
  then show ?case
    by (subst addFilesBatched_loop.simps) simp
next
  case (Suc k)
  then have lt: "i < length batches" and k: "k = length batches - Suc i"
    by simp_all
  note ih = Suc.hyps(1) [OF k]
  show ?case
    by (subst addFilesBatched_loop.simps)
       (simp add: lt upt_conv_Cons run_add_steps ih Let_def split: option.splits)
qed

lemma run_steps_optional_log:
  "run_steps w (ss @ (if b then [SLog x] else [])) tr =
     (case run_steps w ss tr of
        (Inl e, t) \<Rightarrow> (Inl e, t)
      | (Inr u, t) \<Rightarrow> (Inr (), if b then t @ [ConsoleLog x] else t))"
  by (cases b) (simp_all add: run_steps_append split: prod.splits sum.splits)

lemma addFilesBatched_steps:
  assumes "fs \<noteq> []" and "createBatches cfg fs = Some batches"
  shows "addFilesBatched cfg w tr fs = Some (run_steps w (add_script cfg fs batches) tr)"
proof -
  let ?body = "concat (map (add_steps cfg batches) [0..<length batches])"
  let ?tr1 = "if verbose cfg
              then tr @ [ConsoleLog (adding_line (length fs) (length batches) (batchSize cfg))]
              else tr"
  have head: "run_steps w (add_script cfg fs batches) tr =
              run_steps w (?body @ (if verbose cfg \<and> \<not> dryRun cfg
                                    then [SLog (added_line (length fs))] else [])) ?tr1"
    by (simp add: add_script_def)
  have tail: "run_steps w (?body @ (if verbose cfg \<and> \<not> dryRun cfg
                                    then [SLog (added_line (length fs))] else [])) ?tr1 =
              (case run_steps w ?body ?tr1 of
                 (Inl e, t) \<Rightarrow> (Inl e, t)
               | (Inr u, t) \<Rightarrow>
                   (Inr (), if verbose cfg \<and> \<not> dryRun cfg
                            then t @ [ConsoleLog (added_line (length fs))] else t))"
    by (rule run_steps_optional_log)
  have "addFilesBatched cfg w tr fs =
        (case run_steps w ?body ?tr1 of
           (Inl e, t) \<Rightarrow> Some (Inl e, t)
         | (Inr u, t) \<Rightarrow>
             Some (Inr (), if verbose cfg \<and> \<not> dryRun cfg
                           then t @ [ConsoleLog (added_line (length fs))] else t))"
    using assms by (simp add: addFilesBatched_def addFilesBatched_loop_steps Let_def)
  also have "\<dots> = Some (run_steps w (add_script cfg fs batches) tr)"
    unfolding head tail by (simp split: prod.splits sum.splits)
  finally show ?thesis .
qed


lemma createBatches_single:
  assumes "1 \<le> batchSize cfg" and "b \<noteq> []" and "length b \<le> nat (batchSize cfg)"
  shows "createBatches cfg b = Some [b]"
proof -
  have "chunks (nat (batchSize cfg)) b = [b]"
    using assms by (simp add: chunks_step)
  with createBatches_chunks [OF assms(1), of b] show ?thesis by simp
qed

lemma run_commit_tail:
  "run_steps w
     ([if \<not> dryRun cfg then SExec c None else SLog l] @
      (if verbose cfg then [SLog (committed_line num cnt)] else []) @
      delay_step cfg i n @ ss) t =
   (if \<not> dryRun cfg then
      (case w t c of
         Some cause \<Rightarrow> (Inl (ExecError c cause), t @ [ExecSync c])
       | None \<Rightarrow>
           run_steps w ss
             (delay_between cfg i n (committed_log cfg num cnt (t @ [ExecSync c]))))
    else
      run_steps w ss
        (delay_between cfg i n (committed_log cfg num cnt (t @ [ConsoleLog l]))))"
  by (simp add: committed_log_def run_delay_step split: option.splits)

lemma commitFilesBatched_loop_steps:
  assumes size: "1 \<le> batchSize cfg"
    and fit: "\<forall>b \<in> set batches. b \<noteq> [] \<and> length b \<le> nat (batchSize cfg)"
  shows "commitFilesBatched_loop cfg w batches baseMessage i tr =
         Some (run_steps w (concat (map (commit_steps cfg batches baseMessage) [i..<length batches])) tr)"
proof (induction "length batches - i" arbitrary: i tr)
  case 0
  then show ?case
    by (subst commitFilesBatched_loop.simps) simp
next
  case (Suc k)
  then have lt: "i < length batches" and k: "k = length batches - Suc i"
    by simp_all
  note ih = Suc.hyps(1) [OF k]
  let ?b = "batches ! i"
  let ?rest = "concat (map (commit_steps cfg batches baseMessage) [Suc i..<length batches])"
  from lt fit have "?b \<noteq> []" "length ?b \<le> nat (batchSize cfg)"
    by simp_all
  then have single: "createBatches cfg ?b = Some [?b]"
    by (rule createBatches_single [OF size])
  have inner: "addFilesBatched cfg w tr ?b = Some (run_steps w (add_script cfg ?b [?b]) tr)"
    using \<open>?b \<noteq> []\<close> single by (rule addFilesBatched_steps)
  obtain r t where run: "run_steps w (add_script cfg ?b [?b]) tr = (r, t)"
    by (cases "run_steps w (add_script cfg ?b [?b]) tr")
  have split: "run_steps w (concat (map (commit_steps cfg batches baseMessage) [i..<length batches])) tr =
        (case r of
           Inl e \<Rightarrow> (Inl e, t)
         | Inr u \<Rightarrow>
             run_steps w
               ([if \<not> dryRun cfg
                 then SExec (gitCommitCommand (commitMessage baseMessage (i + 1) (length batches))) None
                 else SLog (dry_commit_line (commitMessage baseMessage (i + 1) (length batches)))] @
                (if verbose cfg then [SLog (committed_line (i + 1) (length batches))] else []) @
                delay_step cfg i (length batches) @ ?rest) t)"
    using lt run
    by (simp add: upt_conv_Cons commit_steps_def run_steps_append [of w "add_script cfg ?b [?b]"]
        split: sum.splits)
  show ?case
  proof (cases r)
    case (Inl e)
    with inner run split lt show ?thesis
      by (subst commitFilesBatched_loop.simps) (simp add: Let_def)
  next
    case (Inr u)
    let ?c = "gitCommitCommand (commitMessage baseMessage (i + 1) (length batches))"
    let ?l = "dry_commit_line (commitMessage baseMessage (i + 1) (length batches))"
    have "run_steps w (concat (map (commit_steps cfg batches baseMessage) [i..<length batches])) tr =
          (if \<not> dryRun cfg then
             (case w t ?c of
                Some cause \<Rightarrow> (Inl (ExecError ?c cause), t @ [ExecSync ?c])
              | None \<Rightarrow>
                  run_steps w ?rest
                    (delay_between cfg i (length batches)
                       (committed_log cfg (i + 1) (length batches) (t @ [ExecSync ?c]))))
           else
             run_steps w ?rest
               (delay_between cfg i (length batches)
                  (committed_log cfg (i + 1) (length batches) (t @ [ConsoleLog ?l]))))"
      unfolding split Inr sum.case by (rule run_commit_tail)
    moreover have "commitFilesBatched_loop cfg w batches baseMessage i tr =
          (if \<not> dryRun cfg then
             (case w t ?c of
                Some cause \<Rightarrow> Some (Inl (ExecError ?c cause), t @ [ExecSync ?c])
              | None \<Rightarrow>
                  Some (run_steps w ?rest
                    (delay_between cfg i (length batches)
                       (committed_log cfg (i + 1) (length batches) (t @ [ExecSync ?c])))))
           else
             Some (run_steps w ?rest
               (delay_between cfg i (length batches)
                  (committed_log cfg (i + 1) (length batches) (t @ [ConsoleLog ?l])))))"
      using inner run Inr lt
      by (subst commitFilesBatched_loop.simps) (simp add: Let_def ih split: option.splits)
    ultimately show ?thesis
      by (simp split: option.splits)
  qed
qed

lemma commitFilesBatched_steps:
  assumes "1 \<le> batchSize cfg"
  shows "commitFilesBatched cfg w tr fs baseMessage =
         Some (run_steps w
                 (commit_script cfg (chunks (nat (batchSize cfg)) fs)
                    (case baseMessage of None \<Rightarrow> ''Add files'' | Some m \<Rightarrow> m)) tr)"
proof -
  have "\<forall>b \<in> set (chunks (nat (batchSize cfg)) fs). b \<noteq> [] \<and> length b \<le> nat (batchSize cfg)"
    using assms chunk_bounds [of "nat (batchSize cfg)" _ fs] by simp
  from commitFilesBatched_loop_steps [OF assms this]
  have "commitFilesBatched_loop cfg w (chunks (nat (batchSize cfg)) fs)
          (case baseMessage of None \<Rightarrow> ''Add files'' | Some m \<Rightarrow> m) 0 tr =
        Some (run_steps w
                (commit_script cfg (chunks (nat (batchSize cfg)) fs)
                   (case baseMessage of None \<Rightarrow> ''Add files'' | Some m \<Rightarrow> m)) tr)"
    unfolding commit_script_def .
  with createBatches_chunks [OF assms, of fs] show ?thesis
    by (simp add: commitFilesBatched_def)
qed

section \<open>What a walk leaves in the trace\<close>

lemma execs_append [simp]: "execs (a @ b) = execs a @ execs b"
  by (induction a rule: execs.induct) simp_all

lemma sleeps_append [simp]: "sleeps (a @ b) = sleeps a @ sleeps b"
  by (induction a rule: sleeps.induct) simp_all

lemma step_cmds_append [simp]: "step_cmds (a @ b) = step_cmds a @ step_cmds b"
  by (induction a rule: step_cmds.induct) simp_all

lemma step_events_append [simp]: "step_events (a @ b) = step_events a @ step_events b"
  by (induction a rule: step_events.induct) simp_all

lemma execs_step_events [simp]: "execs (step_events ss) = step_cmds ss"
  by (induction ss rule: step_events.induct) simp_all

lemma run_steps_extends: "\<exists>new. snd (run_steps w ss tr) = tr @ new"
proof (induction ss arbitrary: tr)
  case Nil
  show ?case by simp
next
  case (Cons s ss)
  show ?case
  proof (cases s)
    case (SLog x)
    from Cons [of "tr @ [ConsoleLog x]"] SLog show ?thesis by auto
  next
    case (SExec c h)
    from Cons [of "tr @ [ExecSync c]"] SExec show ?thesis
      by (cases "w tr c") auto
  next
    case (SSleep d)
    from Cons [of "tr @ [Sleep d]"] SSleep show ?thesis by auto
  qed
qed


lemma run_steps_quiet: "step_cmds ss = [] \<Longrightarrow> run_steps w ss tr = (Inr (), tr @ step_events ss)"
proof (induction ss arbitrary: tr)
  case Nil
  show ?case by simp
next
  case (Cons s ss)
  then show ?case by (cases s) simp_all
qed

lemma run_steps_prefix:
  "run_steps w ss tr = (r, tr') \<Longrightarrow>
   \<exists>n \<le> length (step_cmds ss). execs tr' = execs tr @ take n (step_cmds ss) \<and>
      (case r of Inr u \<Rightarrow> n = length (step_cmds ss)
       | Inl e \<Rightarrow> 0 < n \<and> (\<exists>m. e = ExecError (step_cmds ss ! (n - 1)) m))"
proof (induction ss arbitrary: tr)
  case Nil
  then show ?case by auto
next
  case (Cons s ss)
  show ?case
  proof (cases s)
    case (SLog x)
    with Cons.prems have "run_steps w ss (tr @ [ConsoleLog x]) = (r, tr')" by simp
    moreover have same: "step_cmds (s # ss) = step_cmds ss" using SLog by simp
    ultimately show ?thesis using Cons.IH [of "tr @ [ConsoleLog x]"] unfolding same by simp
  next
    case (SSleep d)
    with Cons.prems have "run_steps w ss (tr @ [Sleep d]) = (r, tr')" by simp
    moreover have same: "step_cmds (s # ss) = step_cmds ss" using SSleep by simp
    ultimately show ?thesis using Cons.IH [of "tr @ [Sleep d]"] unfolding same by simp
  next
    case (SExec c h)
    show ?thesis
    proof (cases "w tr c")
      case None
      with Cons.prems SExec have "run_steps w ss (tr @ [ExecSync c]) = (r, tr')" by simp
      from Cons.IH [OF this] obtain n where
        n: "n \<le> length (step_cmds ss)" "execs tr' = execs tr @ c # take n (step_cmds ss)"
        "case r of Inr u \<Rightarrow> n = length (step_cmds ss)
         | Inl e \<Rightarrow> 0 < n \<and> (\<exists>m. e = ExecError (step_cmds ss ! (n - 1)) m)"
        by auto
      show ?thesis
      proof (intro exI [of _ "Suc n"] conjI)
        show "Suc n \<le> length (step_cmds (s # ss))" using n(1) SExec by simp
        show "execs tr' = execs tr @ take (Suc n) (step_cmds (s # ss))" using n(2) SExec by simp
        show "case r of Inr u \<Rightarrow> Suc n = length (step_cmds (s # ss))
              | Inl e \<Rightarrow> 0 < Suc n \<and> (\<exists>m. e = ExecError (step_cmds (s # ss) ! (Suc n - 1)) m)"
          using n(3) SExec by (cases r) (auto simp: nth_Cons')
      qed
    next
      case (Some m)
      with Cons.prems SExec have "r = Inl (ExecError c m)"
        and "tr' = tr @ ExecSync c # (case h of None \<Rightarrow> [] | Some line \<Rightarrow> [ConsoleError (line m)])"
        by simp_all
      then show ?thesis
        using SExec by (intro exI [of _ 1]) (auto split: option.splits)
    qed
  qed
qed

lemma run_steps_halts:
  "run_steps w ss tr = (r, tr @ pre @ ExecSync c # post) \<Longrightarrow> w (tr @ pre) c = Some m \<Longrightarrow>
   r = Inl (ExecError c m) \<and> execs post = [] \<and> sleeps post = []"
proof (induction ss arbitrary: tr pre)
  case Nil
  then show ?case by simp
next
  case (Cons s ss)
  from run_steps_extends [of w ss] have ext: "\<And>t. \<exists>new. snd (run_steps w ss t) = t @ new" .
  have step: "r = Inl (ExecError c m) \<and> execs post = [] \<and> sleeps post = []"
    if run: "run_steps w ss (tr @ [e]) = (r, tr @ pre @ ExecSync c # post)"
      and other: "e = ExecSync c \<Longrightarrow> w tr c = None" for e
  proof -
    from ext [of "tr @ [e]"] run obtain new where "tr @ pre @ ExecSync c # post = (tr @ [e]) @ new"
      by auto
    then have eq: "pre @ ExecSync c # post = e # new" by simp
    have "pre \<noteq> []"
    proof
      assume "pre = []"
      with eq have "e = ExecSync c" by simp
      with other \<open>pre = []\<close> Cons.prems(2) show False by simp
    qed
    then obtain pre' where pre: "pre = e # pre'"
      using eq by (cases pre) auto
    with run have "run_steps w ss (tr @ [e]) = (r, (tr @ [e]) @ pre' @ ExecSync c # post)"
      by simp
    moreover from pre Cons.prems(2) have "w ((tr @ [e]) @ pre') c = Some m" by simp
    ultimately show ?thesis by (rule Cons.IH)
  qed
  show ?case
  proof (cases s)
    case (SLog x)
    with Cons.prems(1) show ?thesis by (intro step [of "ConsoleLog x"]) simp_all
  next
    case (SSleep d)
    with Cons.prems(1) show ?thesis by (intro step [of "Sleep d"]) simp_all
  next
    case (SExec c' h)
    show ?thesis
    proof (cases "w tr c'")
      case None
      with SExec Cons.prems(1) show ?thesis by (intro step [of "ExecSync c'"]) simp_all
    next
      case (Some m')
      let ?errs = "case h of None \<Rightarrow> [] | Some line \<Rightarrow> [ConsoleError (line m')]"
      from Some SExec Cons.prems(1) have r: "r = Inl (ExecError c' m')"
        and eq: "pre @ ExecSync c # post = ExecSync c' # ?errs"
        by simp_all
      show ?thesis
      proof (cases pre)
        case Nil
        with eq have "c = c'" "post = ?errs" by simp_all
        with Nil Some Cons.prems(2) r show ?thesis by (auto split: option.splits)
      next
        case (Cons e pre')
        with eq have "pre' @ ExecSync c # post = ?errs" by simp
        then have "ExecSync c \<in> set ?errs" by (metis in_set_conv_decomp)
        then show ?thesis by (auto split: option.splits)
      qed
    qed
  qed
qed

section \<open>The claims about the partition\<close>

lemma pairs_config:
  "FileBatcher pairs_options = \<lparr> batchSize = 2, verbose = False, dryRun = False, delay = 5 \<rparr>"
  by (simp add: FileBatcher_def pairs_options_def or_num_def or_false_def)

lemma take_window:
  "take (min ((k + 1) * n) (length xs) - k * n) (drop (k * n) xs) = take n (drop (k * n) xs)"
proof (cases "(k + 1) * n \<le> length xs")
  case True
  then show ?thesis by (simp add: min_def)
next
  case False
  then have "length (drop (k * n) xs) \<le> n" by simp
  moreover have "min ((k + 1) * n) (length xs) - k * n = length (drop (k * n) xs)"
    using False by (simp add: min_def)
  ultimately show ?thesis by simp
qed

text \<open>
  C1. For a batch size \<open>S \<ge> 1\<close>, \<^verbatim>\<open>createBatches\<close> returns, the batches put one after the
  other give the list back as it was (nothing lost, doubled or moved), and batch \<open>k\<close>,
  counted from 0, is the slice of the list from \<open>k * S\<close> up to \<open>min ((k + 1) * S) N\<close>.
\<close>

theorem createBatches_partition:
  assumes "1 \<le> batchSize cfg"
  shows "\<exists>batches. createBatches cfg fs = Some batches \<and>
           concat batches = fs \<and>
           (\<forall>k < length batches.
              batches ! k =
                take (min ((k + 1) * nat (batchSize cfg)) (length fs) - k * nat (batchSize cfg))
                  (drop (k * nat (batchSize cfg)) fs))"
proof -
  let ?S = "nat (batchSize cfg)"
  have pos: "0 < ?S" using assms by simp
  have "createBatches cfg fs = Some (chunks ?S fs)"
    using assms by (rule createBatches_chunks)
  moreover have "concat (chunks ?S fs) = fs"
    using pos by (rule concat_chunks)
  moreover have "\<forall>k < length (chunks ?S fs).
      chunks ?S fs ! k = take (min ((k + 1) * ?S) (length fs) - k * ?S) (drop (k * ?S) fs)"
    using nth_chunks [OF pos, of _ fs] by (simp only: take_window) blast
  ultimately show ?thesis by blast
qed

theorem createBatches_partition_witness:
  "1 \<le> batchSize (FileBatcher pairs_options) \<and>
   createBatches (FileBatcher pairs_options) [''a'', ''b'', ''c''] = Some [[''a'', ''b''], [''c'']]"
proof -
  have size: "1 \<le> batchSize (FileBatcher pairs_options)"
    by (simp add: pairs_config)
  from createBatches_partition [OF size, of "[''a'', ''b'', ''c'']"]
  obtain batches where run: "createBatches (FileBatcher pairs_options) [''a'', ''b'', ''c''] = Some batches"
    by blast
  moreover have "createBatches (FileBatcher pairs_options) [''a'', ''b'', ''c''] =
                 Some [[''a'', ''b''], [''c'']]"
    by (simp add: createBatches_def pairs_config createBatches_loop.simps js_slice_def)
  ultimately show ?thesis using size by simp
qed

text \<open>
  C6. For a list of \<open>N\<close> items and a batch size \<open>S \<ge> 1\<close> there are \<open>\<lceil>N / S\<rceil>\<close> batches:
  \<open>N div S\<close> of them, and one more when \<open>S\<close> does not divide \<open>N\<close> (in one formula,
  \<open>(N + S - 1) div S\<close>). Every batch but the last has \<open>S\<close> items, the last has
  \<open>N mod S\<close> items, or \<open>S\<close> when that is zero, and no batch is empty.
\<close>

theorem createBatches_count_and_sizes:
  assumes "1 \<le> batchSize cfg"
  shows "\<exists>batches. createBatches cfg fs = Some batches \<and>
           length batches =
             length fs div nat (batchSize cfg) +
             (if length fs mod nat (batchSize cfg) = 0 then 0 else 1) \<and>
           length batches = (length fs + nat (batchSize cfg) - 1) div nat (batchSize cfg) \<and>
           (\<forall>b \<in> set (butlast batches). length b = nat (batchSize cfg)) \<and>
           (batches \<noteq> [] \<longrightarrow>
              length (last batches) =
                (if length fs mod nat (batchSize cfg) = 0 then nat (batchSize cfg)
                 else length fs mod nat (batchSize cfg))) \<and>
           (\<forall>b \<in> set batches. b \<noteq> [])"
proof -
  let ?S = "nat (batchSize cfg)"
  have pos: "0 < ?S" using assms by simp
  have "createBatches cfg fs = Some (chunks ?S fs)"
    using assms by (rule createBatches_chunks)
  moreover have count: "length (chunks ?S fs) = (length fs + ?S - 1) div ?S"
    using pos by (rule length_chunks)
  moreover have "length (chunks ?S fs) = length fs div ?S + (if length fs mod ?S = 0 then 0 else 1)"
    unfolding count using pos by (rule ceil_div_alt)
  moreover have "\<forall>b \<in> set (butlast (chunks ?S fs)). length b = ?S"
    using pos butlast_chunks_full by blast
  moreover have "chunks ?S fs \<noteq> [] \<longrightarrow>
      length (last (chunks ?S fs)) = (if length fs mod ?S = 0 then ?S else length fs mod ?S)"
  proof
    assume "chunks ?S fs \<noteq> []"
    then have "fs \<noteq> []" by auto
    with pos show "length (last (chunks ?S fs)) =
        (if length fs mod ?S = 0 then ?S else length fs mod ?S)"
      by (rule last_chunk_length)
  qed
  moreover have "\<forall>b \<in> set (chunks ?S fs). b \<noteq> []"
    using pos chunk_bounds by blast
  ultimately show ?thesis by blast
qed

theorem createBatches_count_and_sizes_witness:
  "1 \<le> batchSize (FileBatcher pairs_options) \<and>
   (\<exists>batches. createBatches (FileBatcher pairs_options) (replicate 107 ''f'') = Some batches \<and>
      length batches = 54 \<and> length (last batches) = 1)"
proof -
  have size: "1 \<le> batchSize (FileBatcher pairs_options)"
    by (simp add: pairs_config)
  from createBatches_count_and_sizes [OF size, of "replicate 107 ''f''"]
  obtain batches where
    run: "createBatches (FileBatcher pairs_options) (replicate 107 ''f'') = Some batches" and
    count: "length batches = (107 + 2 - 1) div 2" and
    final: "batches \<noteq> [] \<longrightarrow> length (last batches) = (if 107 mod 2 = (0::nat) then 2 else 107 mod 2)"
    by (auto simp: pairs_config)
  from count have "length batches = 54" by simp
  moreover from this final have "length (last batches) = 1" by auto
  ultimately show ?thesis using size run by simp
qed

text \<open>
  C3, as the code has it. Nothing checks the batch size. A size of 0 given to the
  constructor is replaced by 50, and \<^verbatim>\<open>createBatches\<close> then returns the batches of 50;
  on the empty list \<^verbatim>\<open>createBatches\<close> returns no batch, whatever the size.
\<close>

theorem no_size_validation:
  "(\<exists>batches. createBatches (FileBatcher (opts\<lparr>opt_batchSize := Some 0\<rparr>)) fs = Some batches \<and>
      createBatches (FileBatcher (opts\<lparr>opt_batchSize := Some 50\<rparr>)) fs = Some batches \<and>
      concat batches = fs) \<and>
   createBatches cfg [] = Some []"
proof -
  have zero: "batchSize (FileBatcher (opts\<lparr>opt_batchSize := Some 0\<rparr>)) = 50"
    and fifty: "batchSize (FileBatcher (opts\<lparr>opt_batchSize := Some 50\<rparr>)) = 50"
    by (simp_all add: FileBatcher_def or_num_def)
  have "createBatches (FileBatcher (opts\<lparr>opt_batchSize := Some 0\<rparr>)) fs = Some (chunks 50 fs)"
    using createBatches_chunks [of "FileBatcher (opts\<lparr>opt_batchSize := Some 0\<rparr>)" fs]
    by (simp add: zero)
  moreover
  have "createBatches (FileBatcher (opts\<lparr>opt_batchSize := Some 50\<rparr>)) fs = Some (chunks 50 fs)"
    using createBatches_chunks [of "FileBatcher (opts\<lparr>opt_batchSize := Some 50\<rparr>)" fs]
    by (simp add: fifty)
  moreover have "concat (chunks 50 fs) = fs"
    by (rule concat_chunks) simp
  ultimately show ?thesis
    by (simp add: createBatches_Nil)
qed

text \<open>
  The claim C3 as written fails: with the batch size 0 the partition returns a result,
  and so it does with a negative size on the empty list.
\<close>

theorem size_zero_counterexample:
  "createBatches (FileBatcher zero_options) [''a'', ''b'', ''c''] = Some [[''a'', ''b'', ''c'']] \<and>
   createBatches (FileBatcher (zero_options\<lparr>opt_batchSize := Some (- 1)\<rparr>)) ([] :: string list) =
     Some []"
  by (simp add: createBatches_def FileBatcher_def or_num_def zero_options_def
      createBatches_loop.simps js_slice_def)

section \<open>The claims about empty input\<close>

lemma addFilesBatched_Nil:
  "addFilesBatched cfg w tr [] = Some (Inl (Error ''Files must be a non-empty array''), tr)"
  by (simp add: addFilesBatched_def)

lemma commitFilesBatched_Nil: "commitFilesBatched cfg w tr [] baseMessage = Some (Inr (), tr)"
  by (simp add: commitFilesBatched_def createBatches_Nil commitFilesBatched_loop.simps)

text \<open>
  C4. On the empty list \<^verbatim>\<open>addFilesBatched\<close> throws before it computes a batch or does
  anything else. \<^verbatim>\<open>commitFilesBatched\<close> does not: it checks nothing, computes no batch,
  never enters its loop, where the call of \<^verbatim>\<open>addFilesBatched\<close> stands, and returns
  without an error, whatever the configuration.
\<close>

theorem empty_input:
  "addFilesBatched cfg w tr [] = Some (Inl (Error ''Files must be a non-empty array''), tr) \<and>
   commitFilesBatched cfg w tr [] baseMessage = Some (Inr (), tr)"
  by (simp add: addFilesBatched_Nil commitFilesBatched_Nil)

lemma commit_of_nothing:
  "commitFilesBatched (FileBatcher pairs_options) always_ok [] [] None = Some (Inr (), [])"
  by (simp add: commitFilesBatched_def createBatches_def createBatches_loop.simps
      commitFilesBatched_loop.simps)

section \<open>The claim about the constructor\<close>

text \<open>
  C10. The constructor puts the default in the place of a falsy value: a batch size of 0
  becomes 50 and a delay of 0 becomes 100, as a value left out does; a negative value
  stays. So neither field is ever 0 after the constructor. \<^verbatim>\<open>verbose\<close> and \<^verbatim>\<open>dryRun\<close>
  are false when left out.
\<close>

theorem constructor_defaults:
  "batchSize (FileBatcher (opts\<lparr>opt_batchSize := Some 0\<rparr>)) = 50 \<and>
   delay (FileBatcher (opts\<lparr>opt_delay := Some 0\<rparr>)) = 100 \<and>
   batchSize (FileBatcher (opts\<lparr>opt_batchSize := None\<rparr>)) = 50 \<and>
   delay (FileBatcher (opts\<lparr>opt_delay := None\<rparr>)) = 100 \<and>
   (v < 0 \<longrightarrow> batchSize (FileBatcher (opts\<lparr>opt_batchSize := Some v\<rparr>)) = v \<and>
              delay (FileBatcher (opts\<lparr>opt_delay := Some v\<rparr>)) = v) \<and>
   batchSize (FileBatcher opts) \<noteq> 0 \<and>
   delay (FileBatcher opts) \<noteq> 0 \<and>
   verbose (FileBatcher (opts\<lparr>opt_verbose := None\<rparr>)) = False \<and>
   dryRun (FileBatcher (opts\<lparr>opt_dryRun := None\<rparr>)) = False"
  by (simp add: FileBatcher_def or_num_def or_false_def split: option.splits)

theorem constructor_defaults_witness:
  "(- 3 :: int) < 0 \<and> batchSize (FileBatcher (zero_options\<lparr>opt_batchSize := Some (- 3)\<rparr>)) = - 3 \<and>
   batchSize (FileBatcher zero_options) = 50 \<and> delay (FileBatcher zero_options) = 100"
  using constructor_defaults [of zero_options "- 3"]
  by (simp add: zero_options_def)

section \<open>The claim about analyzeGitStatus\<close>

lemma startsWith_two: "length p = 2 \<Longrightarrow> startsWith line p = (take 2 line = p)"
  by (simp add: startsWith_def)

lemma js_trim_not_blank:
  assumes "c \<in> set s" and "\<not> js_whitespace c"
  shows "js_trim s \<noteq> []"
proof -
  from assms have ne: "dropWhile js_whitespace s \<noteq> []"
    by auto
  then have "\<not> js_whitespace (hd (dropWhile js_whitespace s))"
    by (rule hd_dropWhile)
  moreover from ne have "hd (dropWhile js_whitespace s) \<in> set (rev (dropWhile js_whitespace s))"
    by simp
  ultimately have "dropWhile js_whitespace (rev (dropWhile js_whitespace s)) \<noteq> []"
    by (auto simp del: set_rev)
  then show ?thesis by (simp add: js_trim_def)
qed

lemma recognized_not_blank:
  assumes "spec_recognized line"
  shows "js_trim line \<noteq> []"
proof -
  from assms have "CHR ''?'' \<in> set (take 2 line) \<or> CHR ''M'' \<in> set (take 2 line) \<or>
                   CHR ''A'' \<in> set (take 2 line)"
    unfolding spec_recognized_def by (elim disjE) simp_all
  then have "CHR ''?'' \<in> set line \<or> CHR ''M'' \<in> set line \<or> CHR ''A'' \<in> set line"
    using set_take_subset [of 2 line] by blast
  then show ?thesis
  proof (elim disjE)
    assume "CHR ''?'' \<in> set line"
    then show ?thesis by (rule js_trim_not_blank) (simp add: js_whitespace_def)
  next
    assume "CHR ''M'' \<in> set line"
    then show ?thesis by (rule js_trim_not_blank) (simp add: js_whitespace_def)
  next
    assume "CHR ''A'' \<in> set line"
    then show ?thesis by (rule js_trim_not_blank) (simp add: js_whitespace_def)
  qed
qed

lemma filter_recognized:
  "(js_trim line \<noteq> [] \<and>
    (startsWith line ''??'' \<or> startsWith line '' M'' \<or> startsWith line '' A'')) =
   spec_recognized line"
  using recognized_not_blank [of line]
  by (auto simp: startsWith_two spec_recognized_def)

lemma js_split_not_Nil: "js_split sep s \<noteq> []"
  by (induction s) (auto split: list.splits)

lemma js_split_line:
  "sep \<notin> set l \<Longrightarrow> js_split sep (l @ sep # rest) = l # js_split sep rest"
proof (induction l)
  case Nil
  show ?case by simp
next
  case (Cons c l)
  then show ?case by (auto split: list.splits)
qed

lemma js_split_lines:
  "sep \<notin> set l \<Longrightarrow> js_split sep (concat (replicate n (l @ [sep]))) = replicate n l @ [[]]"
  by (induction n) (simp_all add: js_split_line)

lemma split60: "js_split newline sixty_untracked = replicate 60 ''?? f'' @ [[]]"
  unfolding sixty_untracked_def by (rule js_split_lines) (simp add: newline_def)

text \<open>
  C9. When the status query succeeds, \<^verbatim>\<open>analyzeGitStatus\<close> returns a result whose
  \<open>files\<close> are the paths of the recognized entries, in order, whose \<open>fileCount\<close> is
  their number, and whose \<open>needsBatching\<close> holds exactly when that number is greater
  than the batch size.
\<close>

theorem analyzeGitStatus_result:
  "\<exists>r. analyzeGitStatus cfg (Inr status) = Inr r \<and>
        files r = map (drop 3) (filter spec_recognized (js_split newline status)) \<and>
        fileCount r = length (files r) \<and>
        needsBatching r = (batchSize cfg < int (fileCount r))"
  by (simp add: analyzeGitStatus_def filter_recognized Let_def)

text \<open>Sixty untracked paths and a batch size of 50.\<close>

theorem analyzeGitStatus_result_witness:
  "analyzeGitStatus (FileBatcher (zero_options\<lparr>opt_batchSize := Some 50\<rparr>)) (Inr sixty_untracked) =
   Inr \<lparr> needsBatching = True, fileCount = 60, files = replicate 60 ''f'' \<rparr>"
proof -
  have "spec_recognized ''?? f''" "\<not> spec_recognized []"
    by (simp_all add: spec_recognized_def)
  then have "map (drop 3) (filter spec_recognized (js_split newline sixty_untracked)) = replicate 60 ''f''"
    by (simp add: split60)
  moreover have "batchSize (FileBatcher (zero_options\<lparr>opt_batchSize := Some 50\<rparr>)) = 50"
    by (simp add: FileBatcher_def or_num_def)
  ultimately show ?thesis
    using analyzeGitStatus_result [of "FileBatcher (zero_options\<lparr>opt_batchSize := Some 50\<rparr>)" sixty_untracked]
    by auto
qed
section \<open>The steps of the two methods\<close>

lemma step_cmds_concat: "step_cmds (concat xss) = concat (map step_cmds xss)"
  by (induction xss) simp_all



lemma step_cmds_delay_step [simp]: "step_cmds (delay_step cfg i n) = []"
  by (simp add: delay_step_def)

lemma step_cmds_add_steps:
  "step_cmds (add_steps cfg batches i) = (if dryRun cfg then [] else [gitAddCommand (batches ! i)])"
  by (simp add: add_steps_def)

lemma step_cmds_add_script:
  "step_cmds (add_script cfg fs batches) = (if dryRun cfg then [] else map gitAddCommand batches)"
proof -
  have "concat (map (\<lambda>i. [gitAddCommand (batches ! i)]) [0..<length batches]) =
        map gitAddCommand (map ((!) batches) [0..<length batches])"
    by simp
  then show ?thesis
    by (simp add: add_script_def step_cmds_concat step_cmds_add_steps comp_def map_nth)
qed

lemma step_cmds_commit_steps:
  "step_cmds (commit_steps cfg batches baseMessage i) =
     (if dryRun cfg then []
      else [gitAddCommand (batches ! i),
            gitCommitCommand (commitMessage baseMessage (i + 1) (length batches))])"
  by (simp add: commit_steps_def step_cmds_add_script)

lemma step_cmds_commit_script:
  "step_cmds (commit_script cfg batches baseMessage) =
     (if dryRun cfg then []
      else concat (map (\<lambda>i. [gitAddCommand (batches ! i),
                               gitCommitCommand (commitMessage baseMessage (i + 1) (length batches))])
                     [0..<length batches]))"
  by (simp add: commit_script_def step_cmds_concat step_cmds_commit_steps comp_def)







lemma work_append [simp]: "work (a @ b) = work a @ work b"
  by (induction a rule: work.induct) simp_all







lemma run_steps_always_ok: "run_steps always_ok ss tr = (Inr (), tr @ step_events ss)"
proof (induction ss arbitrary: tr)
  case Nil
  show ?case by simp
next
  case (Cons s ss)
  then show ?case by (cases s) (simp_all add: always_ok_def)
qed

lemma length_pairs: "length (concat (map (\<lambda>j. [f j, g j]) xs)) = 2 * length xs"
  by (induction xs) simp_all

lemma upt_split: "k < n \<Longrightarrow> [0..<n] = [0..<k] @ k # [Suc k..<n]"
  by (metis le_add1 less_imp_add_positive upt_add_eq_append upt_conv_Cons plus_nat.add_0)

lemma pairs_split:
  assumes "k < n"
  shows "concat (map (\<lambda>j. [f j, g j]) [0..<n]) =
         concat (map (\<lambda>j. [f j, g j]) [0..<k]) @ f k # g k # concat (map (\<lambda>j. [f j, g j]) [Suc k..<n])"
  by (simp add: upt_split [OF assms])

lemma take_pairs_even:
  assumes "k < n"
  shows "take (Suc (2 * k)) (concat (map (\<lambda>j. [f j, g j]) [0..<n])) =
         concat (map (\<lambda>j. [f j, g j]) [0..<k]) @ [f k]"
proof -
  have "length (concat (map (\<lambda>j. [f j, g j]) [0..<k])) = 2 * k"
    by (simp add: length_pairs)
  then show ?thesis
    by (simp add: pairs_split [OF assms])
qed

lemma take_pairs_odd:
  assumes "k < n"
  shows "take (Suc (Suc (2 * k))) (concat (map (\<lambda>j. [f j, g j]) [0..<n])) =
         concat (map (\<lambda>j. [f j, g j]) [0..<k]) @ [f k, g k]"
proof -
  have "length (concat (map (\<lambda>j. [f j, g j]) [0..<k])) = 2 * k"
    by (simp add: length_pairs)
  then show ?thesis
    by (simp add: pairs_split [OF assms])
qed

lemma halted_run:
  assumes run: "run_steps w ss tr = (r, tr @ pre @ ExecSync c # post)"
    and failure: "w (tr @ pre) c = Some cause"
  shows "r = Inl (ExecError c cause) \<and> execs post = [] \<and> sleeps post = [] \<and>
         (\<exists>n < length (step_cmds ss). execs pre @ [c] = take (Suc n) (step_cmds ss))"
proof -
  from run_steps_halts [OF run failure]
  have halt: "r = Inl (ExecError c cause)" "execs post = []" "sleeps post = []"
    by simp_all
  from run_steps_prefix [OF run] halt(1)
  obtain n where n: "n \<le> length (step_cmds ss)" "0 < n"
    "execs (tr @ pre @ ExecSync c # post) = execs tr @ take n (step_cmds ss)"
    by auto
  from n(3) halt(2) have "execs pre @ [c] = take n (step_cmds ss)"
    by simp
  moreover from n(1) n(2) obtain n' where "n = Suc n'" "n' < length (step_cmds ss)"
    by (cases n) auto
  ultimately show ?thesis using halt by blast
qed

text \<open>What the two methods are, case by case on the batch size and the list.\<close>

lemma createBatches_cases:
  "(1 \<le> batchSize cfg \<and> createBatches cfg fs = Some (chunks (nat (batchSize cfg)) fs)) \<or>
   (batchSize cfg \<le> 0 \<and> fs = [] \<and> createBatches cfg fs = Some []) \<or>
   (batchSize cfg \<le> 0 \<and> fs \<noteq> [] \<and> createBatches cfg fs = None)"
proof (cases "1 \<le> batchSize cfg")
  case True
  then show ?thesis by (simp add: createBatches_chunks)
next
  case False
  then show ?thesis
    by (cases "fs = []") (simp_all add: createBatches_Nil createBatches_diverges)
qed

lemma addFilesBatched_cases:
  "(fs = [] \<and> addFilesBatched cfg w tr fs = Some (Inl (Error ''Files must be a non-empty array''), tr)) \<or>
   (fs \<noteq> [] \<and> createBatches cfg fs = None \<and> batchSize cfg \<le> 0 \<and> addFilesBatched cfg w tr fs = None) \<or>
   (\<exists>batches. fs \<noteq> [] \<and> createBatches cfg fs = Some batches \<and>
      addFilesBatched cfg w tr fs = Some (run_steps w (add_script cfg fs batches) tr))"
proof (cases "fs = []")
  case True
  then show ?thesis by (simp add: addFilesBatched_Nil)
next
  case False
  show ?thesis
  proof (cases "createBatches cfg fs")
    case None
    moreover from None createBatches_cases [of cfg fs] have "batchSize cfg \<le> 0" by auto
    ultimately show ?thesis using False by (simp add: addFilesBatched_def)
  next
    case (Some batches)
    with False addFilesBatched_steps [OF False Some] show ?thesis by simp
  qed
qed

lemma commitFilesBatched_cases:
  "(fs \<noteq> [] \<and> createBatches cfg fs = None \<and> batchSize cfg \<le> 0 \<and>
      commitFilesBatched cfg w tr fs baseMessage = None) \<or>
   (\<exists>batches. createBatches cfg fs = Some batches \<and>
      commitFilesBatched cfg w tr fs baseMessage =
        Some (run_steps w (commit_script cfg batches
                             (case baseMessage of None \<Rightarrow> ''Add files'' | Some m \<Rightarrow> m)) tr))"
proof -
  from createBatches_cases [of cfg fs] show ?thesis
  proof (elim disjE conjE)
    assume "1 \<le> batchSize cfg" "createBatches cfg fs = Some (chunks (nat (batchSize cfg)) fs)"
    then show ?thesis by (simp add: commitFilesBatched_steps)
  next
    assume "fs = []" "createBatches cfg fs = Some []"
    then show ?thesis by (simp add: commitFilesBatched_Nil commit_script_def)
  next
    assume "fs \<noteq> []" "createBatches cfg fs = None" "batchSize cfg \<le> 0"
    then show ?thesis by (simp add: commitFilesBatched_def)
  qed
qed

section \<open>Examples of runs\<close>

lemma dry_config:
  "FileBatcher dry_options = \<lparr> batchSize = 2, verbose = False, dryRun = True, delay = 5 \<rparr>"
  by (simp add: FileBatcher_def dry_options_def or_num_def or_false_def)

lemma three_in_pairs:
  "createBatches \<lparr> batchSize = 2, verbose = v, dryRun = d, delay = t \<rparr> [''a'', ''b'', ''c''] =
   Some [[''a'', ''b''], [''c'']]"
  by (simp add: createBatches_def createBatches_loop.simps js_slice_def)

lemma single_in_pairs:
  "createBatches \<lparr> batchSize = 2, verbose = v, dryRun = d, delay = t \<rparr> [x] = Some [[x]]"
  "createBatches \<lparr> batchSize = 2, verbose = v, dryRun = d, delay = t \<rparr> [x, y] = Some [[x, y]]"
  by (simp_all add: createBatches_def createBatches_loop.simps js_slice_def)

lemma add_differs: "gitAddCommand [''a'', ''b''] \<noteq> gitAddCommand [''c'']"
  by (simp add: gitAddCommand_def)

lemma commit_differs: "gitCommitCommand m \<noteq> gitAddCommand [''c'']"
  by (simp add: gitAddCommand_def gitCommitCommand_def)

lemma five_in_pairs:
  "createBatches \<lparr> batchSize = 2, verbose = v, dryRun = d, delay = t \<rparr> [''a'', ''b'', ''c'', ''d'', ''e''] =
   Some [[''a'', ''b''], [''c'', ''d''], [''e'']]"
  by (simp add: createBatches_def createBatches_loop.simps js_slice_def)

lemma small_numbers:
  "string_of_nat (Suc 0) = ''1''"
  "string_of_nat (Suc (Suc 0)) = ''2''"
  "string_of_nat (Suc (Suc (Suc 0))) = ''3''"
  by (simp_all add: string_of_nat.simps)




section \<open>The claims about runs\<close>

text \<open>
  C5. With \<open>dryRun\<close> set, neither method hands a command to \<^verbatim>\<open>execSync\<close>: the trace
  grows by console lines and sleeps only. No error of a command can come out: a commit run
  succeeds, a staging run succeeds or, on the empty list, throws the error about the empty
  list. A run that does not return is one whose batch size is not positive, on a list that
  is not empty (\<^verbatim>\<open>createBatches\<close> does not return then).
\<close>

theorem dry_run_purity:
  assumes "dryRun cfg"
  shows "(case addFilesBatched cfg w tr fs of
            None \<Rightarrow> batchSize cfg \<le> 0 \<and> fs \<noteq> []
          | Some (r, tr') \<Rightarrow>
              (\<exists>new. tr' = tr @ new \<and> execs new = []) \<and>
              (if fs = [] then r = Inl (Error ''Files must be a non-empty array'') else r = Inr ())) \<and>
         (case commitFilesBatched cfg w tr fs baseMessage of
            None \<Rightarrow> batchSize cfg \<le> 0 \<and> fs \<noteq> []
          | Some (r, tr') \<Rightarrow> (\<exists>new. tr' = tr @ new \<and> execs new = []) \<and> r = Inr ())"
proof
  from addFilesBatched_cases [of fs cfg w tr]
  show "case addFilesBatched cfg w tr fs of
            None \<Rightarrow> batchSize cfg \<le> 0 \<and> fs \<noteq> []
          | Some (r, tr') \<Rightarrow>
              (\<exists>new. tr' = tr @ new \<and> execs new = []) \<and>
              (if fs = [] then r = Inl (Error ''Files must be a non-empty array'') else r = Inr ())"
  proof (elim disjE conjE exE)
    fix batches
    assume ne: "fs \<noteq> []"
      and run: "addFilesBatched cfg w tr fs = Some (run_steps w (add_script cfg fs batches) tr)"
    have quiet: "step_cmds (add_script cfg fs batches) = []"
      using assms by (simp add: step_cmds_add_script)
    have "execs (step_events (add_script cfg fs batches)) = []"
      by (simp add: quiet)
    with run ne show ?thesis
      by (simp add: run_steps_quiet [OF quiet])
  qed simp_all
next
  from commitFilesBatched_cases [of fs cfg w tr baseMessage]
  show "case commitFilesBatched cfg w tr fs baseMessage of
            None \<Rightarrow> batchSize cfg \<le> 0 \<and> fs \<noteq> []
          | Some (r, tr') \<Rightarrow> (\<exists>new. tr' = tr @ new \<and> execs new = []) \<and> r = Inr ()"
  proof (elim disjE conjE exE)
    fix batches
    let ?script = "commit_script cfg batches (case baseMessage of None \<Rightarrow> ''Add files'' | Some m \<Rightarrow> m)"
    assume run: "commitFilesBatched cfg w tr fs baseMessage = Some (run_steps w ?script tr)"
    have quiet: "step_cmds ?script = []"
      using assms by (simp add: step_cmds_commit_script)
    have "execs (step_events ?script) = []"
      by (simp add: quiet)
    with run show ?thesis
      by (simp add: run_steps_quiet [OF quiet])
  qed simp_all
qed

theorem dry_run_purity_witness:
  "dryRun (FileBatcher dry_options) \<and>
   addFilesBatched (FileBatcher dry_options) (fails_on (gitAddCommand [''c''])) [] [''a'', ''b'', ''c''] =
     Some (Inr (), [ConsoleLog (dry_add_line [''a'', ''b'']), Sleep 5, ConsoleLog (dry_add_line [''c''])]) \<and>
   execs [ConsoleLog (dry_add_line [''a'', ''b'']), Sleep 5, ConsoleLog (dry_add_line [''c''])] = []"
proof -
  let ?trace = "[ConsoleLog (dry_add_line [''a'', ''b'']), Sleep 5, ConsoleLog (dry_add_line [''c''])]"
  have dry: "dryRun (FileBatcher dry_options)"
    by (simp add: dry_config)
  have run: "addFilesBatched (FileBatcher dry_options) (fails_on (gitAddCommand [''c''])) []
               [''a'', ''b'', ''c''] = Some (Inr (), ?trace)"
    by (simp add: dry_config addFilesBatched_def three_in_pairs addFilesBatched_loop.simps
        delay_between_def Let_def)
  from dry_run_purity [OF dry, where w = "fails_on (gitAddCommand [''c''])" and tr = "[]"
      and fs = "[''a'', ''b'', ''c'']" and baseMessage = None]
  have "case addFilesBatched (FileBatcher dry_options) (fails_on (gitAddCommand [''c''])) []
               [''a'', ''b'', ''c''] of
          None \<Rightarrow> batchSize (FileBatcher dry_options) \<le> 0 \<and> [''a'', ''b'', ''c''] \<noteq> []
        | Some (r, tr') \<Rightarrow>
            (\<exists>new. tr' = [] @ new \<and> execs new = []) \<and>
            (if [''a'', ''b'', ''c''] = [] then r = Inl (Error ''Files must be a non-empty array'')
             else r = Inr ())"
    by (rule conjunct1)
  then have "execs ?trace = []"
    unfolding run by simp
  with dry run show ?thesis by (intro conjI)
qed

text \<open>
  C7. A commit run that is not a dry run, with base message \<open>base\<close> and \<open>N\<close> batches,
  returns, and the commands it handed to \<^verbatim>\<open>execSync\<close> are, in order and up to the point
  where the run ended,
  the \<^verbatim>\<open>git add\<close> of batch \<open>i\<close> followed by \<^verbatim>\<open>git commit -m\<close> with the message \<open>base\<close>
  and the suffix \<^verbatim>\<open> (batch i/N)\<close>, \<open>i\<close> counted from 1, when \<open>N > 1\<close>, and with \<open>base\<close> alone
  when \<open>N = 1\<close>; a run that succeeds has handed over all of them.
\<close>

theorem commit_messages:
  assumes "createBatches cfg fs = Some batches"
    and "\<not> dryRun cfg"
  shows "\<exists>r tr' n.
           commitFilesBatched cfg w tr fs (Some base) = Some (r, tr') \<and>
           n \<le> 2 * length batches \<and>
           execs tr' = execs tr @
             take n (concat (map (\<lambda>i. [gitAddCommand (batches ! i),
                                        ''git commit -m '' @ [dquote] @
                                        (if 1 < length batches
                                         then base @ '' (batch '' @ string_of_nat (i + 1) @ ''/'' @
                                              string_of_nat (length batches) @ '')''
                                         else base) @ [dquote]])
                               [0..<length batches])) \<and>
           (r = Inr () \<longrightarrow> n = 2 * length batches)"
proof -
  let ?plan = "concat (map (\<lambda>i. [gitAddCommand (batches ! i),
                                   gitCommitCommand (commitMessage base (i + 1) (length batches))])
                          [0..<length batches])"
  obtain r tr' where run: "run_steps w (commit_script cfg batches base) tr = (r, tr')"
    by (cases "run_steps w (commit_script cfg batches base) tr")
  from commitFilesBatched_cases [of fs cfg w tr "Some base"] assms(1) run
  have result: "commitFilesBatched cfg w tr fs (Some base) = Some (r, tr')"
    by auto
  have cmds: "step_cmds (commit_script cfg batches base) = ?plan"
    using assms(2) by (simp only: step_cmds_commit_script if_False)
  from run_steps_prefix [OF run, unfolded cmds]
  obtain n where n: "n \<le> length ?plan" "execs tr' = execs tr @ take n ?plan"
    "case r of Inr u \<Rightarrow> n = length ?plan
     | Inl e \<Rightarrow> 0 < n \<and> (\<exists>m. e = ExecError (?plan ! (n - 1)) m)"
    by blast
  have len: "length ?plan = 2 * length batches"
    by (simp add: length_pairs)
  have "n \<le> 2 * length batches" using n(1) len by simp
  moreover have "r = Inr () \<longrightarrow> n = 2 * length batches"
    using n(3) len by (auto split: sum.splits)
  moreover note n(2) result
  ultimately show ?thesis
    unfolding gitCommitCommand_def commitMessage_def by auto
qed

theorem commit_messages_witness:
  "createBatches (FileBatcher pairs_options) [''a'', ''b'', ''c'', ''d'', ''e''] =
     Some [[''a'', ''b''], [''c'', ''d''], [''e'']] \<and>
   \<not> dryRun (FileBatcher pairs_options) \<and>
   (\<exists>tr'. commitFilesBatched (FileBatcher pairs_options) always_ok []
             [''a'', ''b'', ''c'', ''d'', ''e''] (Some ''Add X'') = Some (Inr (), tr') \<and>
      execs tr' =
        [gitAddCommand [''a'', ''b''], ''git commit -m '' @ [dquote] @ ''Add X (batch 1/3)'' @ [dquote],
         gitAddCommand [''c'', ''d''], ''git commit -m '' @ [dquote] @ ''Add X (batch 2/3)'' @ [dquote],
         gitAddCommand [''e''], ''git commit -m '' @ [dquote] @ ''Add X (batch 3/3)'' @ [dquote]])"
proof -
  let ?cfg = "FileBatcher pairs_options"
  let ?fs = "[''a'', ''b'', ''c'', ''d'', ''e'']"
  let ?batches = "[[''a'', ''b''], [''c'', ''d''], [''e'']]"
  have batches: "createBatches ?cfg ?fs = Some ?batches"
    by (simp add: pairs_config five_in_pairs)
  have wet: "\<not> dryRun ?cfg"
    by (simp add: pairs_config)
  have "1 \<le> batchSize ?cfg"
    by (simp add: pairs_config)
  from commitFilesBatched_steps [OF this, of always_ok "[]" ?fs "Some ''Add X''"]
  obtain tr0 where success: "commitFilesBatched ?cfg always_ok [] ?fs (Some ''Add X'') = Some (Inr (), tr0)"
    by (simp add: run_steps_always_ok)
  from commit_messages [OF batches wet, where w = always_ok and tr = "[]" and base = "''Add X''"]
  obtain r tr' n where "commitFilesBatched ?cfg always_ok [] ?fs (Some ''Add X'') = Some (r, tr')"
    and "n \<le> 2 * length ?batches"
    and "execs tr' = execs [] @
           take n (concat (map (\<lambda>i. [gitAddCommand (?batches ! i),
                                      ''git commit -m '' @ [dquote] @
                                      (if 1 < length ?batches
                                       then ''Add X'' @ '' (batch '' @ string_of_nat (i + 1) @ ''/'' @
                                            string_of_nat (length ?batches) @ '')''
                                       else ''Add X'') @ [dquote]])
                             [0..<length ?batches]))"
    and "r = Inr () \<longrightarrow> n = 2 * length ?batches"
    by blast
  with success have "execs tr0 =
        [gitAddCommand [''a'', ''b''], ''git commit -m '' @ [dquote] @ ''Add X (batch 1/3)'' @ [dquote],
         gitAddCommand [''c'', ''d''], ''git commit -m '' @ [dquote] @ ''Add X (batch 2/3)'' @ [dquote],
         gitAddCommand [''e''], ''git commit -m '' @ [dquote] @ ''Add X (batch 3/3)'' @ [dquote]]"
    by (simp add: upt_rec small_numbers numeral_3_eq_3)
  with batches wet success show ?thesis by blast
qed








text \<open>
  C2. Let a command handed to \<^verbatim>\<open>execSync\<close> during a run throw. Then the run ends with
  that error, and after the command the trace holds no further command and no sleep. In a
  staging run the command is the \<^verbatim>\<open>git add\<close> of some batch \<open>k\<close>, and the commands before it
  are the \<^verbatim>\<open>git add\<close> of the batches before \<open>k\<close>. In a commit run it is either the
  \<^verbatim>\<open>git add\<close> of some batch \<open>k\<close>, after the \<^verbatim>\<open>git add\<close> and \<^verbatim>\<open>git commit\<close> of every batch
  before \<open>k\<close>, or the \<^verbatim>\<open>git commit\<close> of batch \<open>k\<close>, after those and the \<^verbatim>\<open>git add\<close> of batch
  \<open>k\<close>. So no batch after \<open>k\<close> is staged or committed, batch \<open>k\<close> is not committed when its
  staging failed, and nothing undoes the batches before \<open>k\<close>.
\<close>

theorem halt_on_failure:
  assumes batches: "createBatches cfg fs = Some batches"
    and failure: "w (tr @ pre) c = Some cause"
  shows "(addFilesBatched cfg w tr fs = Some (r, tr @ pre @ ExecSync c # post) \<longrightarrow>
            r = Inl (ExecError c cause) \<and> execs post = [] \<and> sleeps post = [] \<and>
            (\<exists>k < length batches.
               c = gitAddCommand (batches ! k) \<and>
               execs pre = map gitAddCommand (take k batches))) \<and>
         (commitFilesBatched cfg w tr fs (Some base) = Some (r, tr @ pre @ ExecSync c # post) \<longrightarrow>
            r = Inl (ExecError c cause) \<and> execs post = [] \<and> sleeps post = [] \<and>
            (\<exists>k < length batches.
               (c = gitAddCommand (batches ! k) \<and>
                execs pre =
                  concat (map (\<lambda>j. [gitAddCommand (batches ! j),
                                     gitCommitCommand (commitMessage base (j + 1) (length batches))])
                            [0..<k])) \<or>
               (c = gitCommitCommand (commitMessage base (k + 1) (length batches)) \<and>
                execs pre =
                  concat (map (\<lambda>j. [gitAddCommand (batches ! j),
                                     gitCommitCommand (commitMessage base (j + 1) (length batches))])
                            [0..<k]) @ [gitAddCommand (batches ! k)])))"
proof (rule conjI; rule impI)
  assume run: "addFilesBatched cfg w tr fs = Some (r, tr @ pre @ ExecSync c # post)"
  from addFilesBatched_cases [of fs cfg w tr] run batches
  have steps: "run_steps w (add_script cfg fs batches) tr = (r, tr @ pre @ ExecSync c # post)"
    by auto
  from halted_run [OF steps failure]
  obtain n where halt: "r = Inl (ExecError c cause)" "execs post = []" "sleeps post = []"
    and n: "n < length (step_cmds (add_script cfg fs batches))"
      "execs pre @ [c] = take (Suc n) (step_cmds (add_script cfg fs batches))"
    by blast
  from n(1) have cmds: "step_cmds (add_script cfg fs batches) = map gitAddCommand batches"
    by (simp add: step_cmds_add_script split: if_splits)
  from n(1) have lt: "n < length batches" by (simp add: cmds)
  have "take (Suc n) (map gitAddCommand batches) =
        map gitAddCommand (take n batches) @ [gitAddCommand (batches ! n)]"
    using lt by (simp add: take_Suc_conv_app_nth take_map)
  with n(2) cmds have "execs pre = map gitAddCommand (take n batches)" "c = gitAddCommand (batches ! n)"
    by simp_all
  with lt have "\<exists>k < length batches.
               c = gitAddCommand (batches ! k) \<and> execs pre = map gitAddCommand (take k batches)"
    by blast
  with halt show "r = Inl (ExecError c cause) \<and> execs post = [] \<and> sleeps post = [] \<and>
            (\<exists>k < length batches.
               c = gitAddCommand (batches ! k) \<and>
               execs pre = map gitAddCommand (take k batches))"
    by simp
next
  let ?stage = "\<lambda>j. gitAddCommand (batches ! j)"
  let ?commit = "\<lambda>j. gitCommitCommand (commitMessage base (j + 1) (length batches))"
  let ?pairs = "\<lambda>js. concat (map (\<lambda>j. [?stage j, ?commit j]) js)"
  assume run: "commitFilesBatched cfg w tr fs (Some base) = Some (r, tr @ pre @ ExecSync c # post)"
  from commitFilesBatched_cases [of fs cfg w tr "Some base"] run batches
  have steps: "run_steps w (commit_script cfg batches base) tr = (r, tr @ pre @ ExecSync c # post)"
    by auto
  from halted_run [OF steps failure]
  obtain n where halt: "r = Inl (ExecError c cause)" "execs post = []" "sleeps post = []"
    and n: "n < length (step_cmds (commit_script cfg batches base))"
      "execs pre @ [c] = take (Suc n) (step_cmds (commit_script cfg batches base))"
    by blast
  from n(1) have "\<not> dryRun cfg"
    by (auto simp: step_cmds_commit_script)
  then have cmds: "step_cmds (commit_script cfg batches base) = ?pairs [0..<length batches]"
    by (simp only: step_cmds_commit_script if_False)
  from n(1) have lt: "n < 2 * length batches"
    unfolding cmds by (simp only: length_pairs length_upt diff_zero)
  define k where "k = n div 2"
  from lt have k: "k < length batches" by (simp add: k_def)
  have "(c = ?stage k \<and> execs pre = ?pairs [0..<k]) \<or>
        (c = ?commit k \<and> execs pre = ?pairs [0..<k] @ [?stage k])"
  proof (cases "even n")
    case True
    then have "n = 2 * k" by (auto simp: k_def)
    with n(2) cmds have "execs pre @ [c] = take (Suc (2 * k)) (?pairs [0..<length batches])"
      by simp
    also have "\<dots> = ?pairs [0..<k] @ [?stage k]"
      using k by (rule take_pairs_even)
    finally show ?thesis by simp
  next
    case False
    then have "n = Suc (2 * k)" by (auto simp: k_def elim: oddE)
    with n(2) cmds have "execs pre @ [c] = take (Suc (Suc (2 * k))) (?pairs [0..<length batches])"
      by simp
    also have "\<dots> = ?pairs [0..<k] @ [?stage k, ?commit k]"
      using k by (rule take_pairs_odd)
    also have "\<dots> = (?pairs [0..<k] @ [?stage k]) @ [?commit k]"
      by simp
    finally have "execs pre = ?pairs [0..<k] @ [?stage k]" "c = ?commit k"
      by (simp_all only: append1_eq_conv)
    then show ?thesis by simp
  qed
  with k have "\<exists>k < length batches.
       (c = ?stage k \<and> execs pre = ?pairs [0..<k]) \<or>
       (c = ?commit k \<and> execs pre = ?pairs [0..<k] @ [?stage k])"
    by blast
  with halt show "r = Inl (ExecError c cause) \<and> execs post = [] \<and> sleeps post = [] \<and>
       (\<exists>k < length batches.
          (c = ?stage k \<and> execs pre = ?pairs [0..<k]) \<or>
          (c = ?commit k \<and> execs pre = ?pairs [0..<k] @ [?stage k]))"
    by simp
qed

theorem halt_on_failure_witness:
  "createBatches (FileBatcher pairs_options) [''a'', ''b'', ''c''] = Some [[''a'', ''b''], [''c'']] \<and>
   fails_on (gitAddCommand [''c'']) ([] @ [ExecSync (gitAddCommand [''a'', ''b'']), Sleep 5])
     (gitAddCommand [''c'']) = Some ''fatal'' \<and>
   addFilesBatched (FileBatcher pairs_options) (fails_on (gitAddCommand [''c''])) [] [''a'', ''b'', ''c''] =
     Some (Inl (ExecError (gitAddCommand [''c'']) ''fatal''),
           [] @ [ExecSync (gitAddCommand [''a'', ''b'']), Sleep 5] @
           ExecSync (gitAddCommand [''c'']) # [ConsoleError (error_line 2 ''fatal'')]) \<and>
   execs [ExecSync (gitAddCommand [''a'', ''b'']), Sleep 5] =
     map gitAddCommand (take 1 [[''a'', ''b''], [''c'']]) \<and>
   fails_on (gitAddCommand [''c''])
     ([] @ [ExecSync (gitAddCommand [''a'', ''b'']),
            ExecSync (gitCommitCommand (commitMessage ''m'' 1 2)), Sleep 5])
     (gitAddCommand [''c'']) = Some ''fatal'' \<and>
   commitFilesBatched (FileBatcher pairs_options) (fails_on (gitAddCommand [''c''])) []
     [''a'', ''b'', ''c''] (Some ''m'') =
     Some (Inl (ExecError (gitAddCommand [''c'']) ''fatal''),
           [] @ [ExecSync (gitAddCommand [''a'', ''b'']),
                 ExecSync (gitCommitCommand (commitMessage ''m'' 1 2)), Sleep 5] @
           ExecSync (gitAddCommand [''c'']) # [ConsoleError (error_line 1 ''fatal'')]) \<and>
   execs [ConsoleError (error_line 1 ''fatal'')] = [] \<and>
   sleeps [ConsoleError (error_line 1 ''fatal'')] = []"
proof -
  let ?w = "fails_on (gitAddCommand [''c''])"
  let ?r = "Inl (ExecError (gitAddCommand [''c'']) ''fatal'') :: js_error + unit"
  let ?pre = "[ExecSync (gitAddCommand [''a'', ''b'']), Sleep 5]"
  let ?post = "[ConsoleError (error_line 2 ''fatal'')]"
  let ?pre' = "[ExecSync (gitAddCommand [''a'', ''b'']),
                ExecSync (gitCommitCommand (commitMessage ''m'' 1 2)), Sleep 5]"
  let ?post' = "[ConsoleError (error_line 1 ''fatal'')]"
  have batches: "createBatches (FileBatcher pairs_options) [''a'', ''b'', ''c''] =
                 Some [[''a'', ''b''], [''c'']]"
    by (simp add: pairs_config three_in_pairs)
  have failure: "?w ([] @ ?pre) (gitAddCommand [''c'']) = Some ''fatal''"
    by (simp add: fails_on_def)
  have run: "addFilesBatched (FileBatcher pairs_options) ?w [] [''a'', ''b'', ''c''] =
             Some (?r, [] @ ?pre @ ExecSync (gitAddCommand [''c'']) # ?post)"
    by (simp add: pairs_config addFilesBatched_def three_in_pairs addFilesBatched_loop.simps
        delay_between_def fails_on_def add_differs Let_def numeral_2_eq_2)
  from halt_on_failure [where w = ?w and tr = "[]" and pre = ?pre and c = "gitAddCommand [''c'']"
      and cause = "''fatal''" and r = ?r and post = ?post, OF batches failure]
    run
  obtain k where "k < length [[''a'', ''b''], [''c'']]"
    "gitAddCommand [''c''] = gitAddCommand ([[''a'', ''b''], [''c'']] ! k)"
    "execs ?pre = map gitAddCommand (take k [[''a'', ''b''], [''c'']])"
    by blast
  moreover from this(1,2) have "k = 1"
    using add_differs by (cases k) auto
  ultimately have staged: "execs ?pre = map gitAddCommand (take 1 [[''a'', ''b''], [''c'']])"
    by simp
  have failure': "?w ([] @ ?pre') (gitAddCommand [''c'']) = Some ''fatal''"
    by (simp add: fails_on_def)
  have run': "commitFilesBatched (FileBatcher pairs_options) ?w [] [''a'', ''b'', ''c''] (Some ''m'') =
              Some (?r, [] @ ?pre' @ ExecSync (gitAddCommand [''c'']) # ?post')"
    by (simp add: pairs_config commitFilesBatched_def three_in_pairs commitFilesBatched_loop.simps
        addFilesBatched_def single_in_pairs addFilesBatched_loop.simps delay_between_def
        committed_log_def fails_on_def add_differs commit_differs Let_def numeral_2_eq_2)
  from halt_on_failure [where w = ?w and tr = "[]" and pre = ?pre' and c = "gitAddCommand [''c'']"
      and cause = "''fatal''" and r = ?r and post = ?post' and base = "''m''", OF batches failure']
    run'
  have stopped: "execs ?post' = []" "sleeps ?post' = []"
    by blast+
  from batches failure run staged failure' run' stopped show ?thesis
    by (intro conjI)
qed

end
